theory Spec2Isabelle
  imports Complex_Main
begin

text \<open>
  The generative-object pipeline of GeminiDoodle: the two-tier cache (cache.js), the
  sandbox executor with its ephemeral ring buffer (executor.js), the object registry
  (objects.js), and the submission handler and game loop of the main module. The
  functions of the source keep their names (the cache's \<^verbatim>\<open>get\<close> and \<^verbatim>\<open>set\<close> are
  \<open>cache_get\<close> and \<open>cache_set\<close>); the browser, the JavaScript engine, the network and
  the physics world appear through what these functions ask of them.
\<close>

section \<open>JavaScript values at the boundaries\<close>

text \<open>
  The values that cross the cache's boundaries are JSON values. Only two things are ever
  asked of them: whether they are strings (\<^verbatim>\<open>typeof data === 'string'\<close>) and whether
  they are truthy (\<^verbatim>\<open>if (local)\<close>, \<^verbatim>\<open>val ? ... : null\<close>). Objects and arrays are always
  truthy and are not told apart; numbers are read as reals.
\<close>

datatype jsval = Null | Str string | Bool bool | Num real | Obj

fun truthy :: "jsval \<Rightarrow> bool" where
  "truthy Null = False"
| "truthy (Str s) = (s \<noteq> [])"
| "truthy (Bool b) = b"
| "truthy (Num n) = (n \<noteq> 0)"
| "truthy Obj = True"

text \<open>
  A text held by \<^verbatim>\<open>localStorage\<close> or carried by an HTTP body is the empty text, the JSON
  text of a value (never empty), or a non-empty text that is not JSON.
  \<^verbatim>\<open>JSON.stringify\<close> produces the JSON text of its argument; \<^verbatim>\<open>JSON.parse\<close> gives the
  value back and throws a SyntaxError on the two other kinds of text.
\<close>

datatype dom_text = Empty | Json jsval | Malformed

definition JSON_stringify :: "jsval \<Rightarrow> dom_text" where
  "JSON_stringify v = Json v"

fun JSON_parse :: "dom_text \<Rightarrow> jsval option" where
  "JSON_parse (Json v) = Some v"
| "JSON_parse Empty = None"
| "JSON_parse Malformed = None"

fun truthy_text :: "dom_text \<Rightarrow> bool" where
  "truthy_text Empty = False"
| "truthy_text (Json v) = True"
| "truthy_text Malformed = True"

section \<open>cache.js: localStorage (L1) and Firebase (L2)\<close>

text \<open>
  \<^verbatim>\<open>localStorage\<close>: the stored items, and the writes the browser refuses
  (\<^verbatim>\<open>setItem\<close> throws QuotaExceededError, which \<^verbatim>\<open>setLocal\<close> swallows).
\<close>

record local_storage =
  items :: "string \<rightharpoonup> dom_text"
  exceeds_quota :: "string \<Rightarrow> dom_text \<Rightarrow> bool"

definition getItem :: "local_storage \<Rightarrow> string \<Rightarrow> dom_text option" where
  "getItem ls k = items ls k"

definition setItem :: "local_storage \<Rightarrow> string \<Rightarrow> dom_text \<Rightarrow> local_storage option" where
  "setItem ls k v = (if exceeds_quota ls k v then None else Some (ls\<lparr>items := (items ls)(k \<mapsto> v)\<rparr>))"

text \<open>
  The outcome of an HTTP GET: the transport fails (\<^verbatim>\<open>fetch\<close> rejects), or a response
  arrives with its \<^verbatim>\<open>ok\<close> flag and its body. The remote tier is the function from URLs
  to outcomes.
\<close>

datatype fetch_result = NetworkError | Response bool dom_text

type_synonym remote = "string \<Rightarrow> fetch_result"

definition unreachable :: remote where
  "unreachable = (\<lambda>url. NetworkError)"

definition LS_PREFIX :: string where
  "LS_PREFIX = ''objcache:''"

definition encodeFirebaseKey :: "string \<Rightarrow> string" where
  "encodeFirebaseKey key = map (\<lambda>c. if c \<in> set ''.$#[]/'' then CHR ''_'' else c) key"

definition getLocal :: "local_storage \<Rightarrow> string \<Rightarrow> jsval" where
  "getLocal ls key =
     (case getItem ls (LS_PREFIX @ key) of
        None \<Rightarrow> Null
      | Some val \<Rightarrow>
          if truthy_text val
          then (case JSON_parse val of Some v \<Rightarrow> v | None \<Rightarrow> Null)
          else Null)"

definition setLocal :: "local_storage \<Rightarrow> string \<Rightarrow> jsval \<Rightarrow> local_storage" where
  "setLocal ls key code =
     (case setItem ls (LS_PREFIX @ key) (JSON_stringify code) of
        Some ls' \<Rightarrow> ls'
      | None \<Rightarrow> ls)"

definition cache_url :: "string \<Rightarrow> string \<Rightarrow> string" where
  "cache_url firebaseUrl key = firebaseUrl @ ''/cache/'' @ encodeFirebaseKey key @ ''.json''"

definition firebase_value :: "fetch_result \<Rightarrow> jsval" where
  "firebase_value res =
     (case res of
        NetworkError \<Rightarrow> Null
      | Response ok body \<Rightarrow>
          if \<not> ok then Null
          else (case JSON_parse body of
                  None \<Rightarrow> Null
                | Some data \<Rightarrow> (case data of Str s \<Rightarrow> Str s | _ \<Rightarrow> Null)))"

definition getFirebase :: "string \<Rightarrow> remote \<Rightarrow> string \<Rightarrow> jsval" where
  "getFirebase firebaseUrl net key =
     (if firebaseUrl = [] then Null
      else firebase_value (net (cache_url firebaseUrl key)))"

text \<open>
  \<^verbatim>\<open>setFirebase\<close> only issues a PUT whose outcome is discarded
  (\<^verbatim>\<open>.catch(() => {})\<close>): the model returns the request, if any.
\<close>

definition setFirebase :: "string \<Rightarrow> string \<Rightarrow> jsval \<Rightarrow> (string \<times> dom_text) option" where
  "setFirebase firebaseUrl key code =
     (if firebaseUrl = [] then None
      else Some (cache_url firebaseUrl key, JSON_stringify code))"

definition cache_get :: "string \<Rightarrow> remote \<Rightarrow> local_storage \<Rightarrow> string \<Rightarrow> jsval \<times> local_storage" where
  "cache_get firebaseUrl net ls key =
     (let local = getLocal ls key
      in if truthy local then (local, ls)
         else (let remote = getFirebase firebaseUrl net key
               in if truthy remote then (remote, setLocal ls key remote)
                  else (Null, ls)))"

definition cache_set ::
  "string \<Rightarrow> local_storage \<Rightarrow> string \<Rightarrow> jsval \<Rightarrow> local_storage \<times> (string \<times> dom_text) option" where
  "cache_set firebaseUrl ls key code = (setLocal ls key code, setFirebase firebaseUrl key code)"

section \<open>objects.js and the physics world\<close>

text \<open>
  Tracked objects and planck bodies are JavaScript objects, compared and shared by
  reference: the registry, the ring buffer and the root-body arrays hold references, and
  the fields live in a store. Of a body the model keeps what the executor reads or
  writes: the \<^verbatim>\<open>isEphemeral\<close> tag of its user data, its gravity scale, the density of
  each fixture and \<^verbatim>\<open>isActive()\<close>. The calls of \<^verbatim>\<open>world.destroyBody\<close> are recorded in
  order. Rendering metadata (type, radius, colour) and the mass recomputed by
  \<^verbatim>\<open>resetMassData\<close> play no part in the executor and are left out. Every tracked object
  has a \<^verbatim>\<open>body\<close> (objects.js, line 6); a property that is absent reads as false.
\<close>

type_synonym obj_ref = nat
type_synonym body_ref = nat

record fixture =
  density :: real

record planck_body =
  isEphemeral :: bool
  gravityScale :: real
  fixtureList :: "fixture list"
  isActive :: bool

record tracked_object =
  body :: body_ref
  spawned :: bool
  ephemeral :: bool

record world =
  objects :: "obj_ref list"
  heap :: "obj_ref \<Rightarrow> tracked_object"
  bodies :: "body_ref \<Rightarrow> planck_body"
  destroyed :: "body_ref list"

definition registerObject :: "world \<Rightarrow> obj_ref \<Rightarrow> world" where
  "registerObject w obj = w\<lparr>objects := objects w @ [obj]\<rparr>"

text \<open>\<^verbatim>\<open>indexOf\<close> finds the first reference equal to \<open>obj\<close>; \<^verbatim>\<open>splice\<close> removes it.\<close>

definition unregisterObject :: "world \<Rightarrow> obj_ref \<Rightarrow> world" where
  "unregisterObject w obj = w\<lparr>objects := remove1 obj (objects w)\<rparr>"

definition destroyBody :: "world \<Rightarrow> body_ref \<Rightarrow> world" where
  "destroyBody w b = w\<lparr>destroyed := destroyed w @ [b]\<rparr>"

definition set_spawned :: "world \<Rightarrow> obj_ref \<Rightarrow> world" where
  "set_spawned w obj = w\<lparr>heap := (heap w)(obj := (heap w obj)\<lparr>spawned := True\<rparr>)\<rparr>"

definition set_ephemeral :: "world \<Rightarrow> obj_ref \<Rightarrow> world" where
  "set_ephemeral w obj = w\<lparr>heap := (heap w)(obj := (heap w obj)\<lparr>ephemeral := True\<rparr>)\<rparr>"

text \<open>
  Lines 88 to 96 of executor.js: tag the user data, \<^verbatim>\<open>setGravityScale(0)\<close>, and
  \<^verbatim>\<open>setDensity(0)\<close> on every fixture of the list.
\<close>

definition make_weightless :: "world \<Rightarrow> body_ref \<Rightarrow> world" where
  "make_weightless w b =
     w\<lparr>bodies := (bodies w)(b := (bodies w b)
        \<lparr>isEphemeral := True,
         gravityScale := 0,
         fixtureList := map (\<lambda>f. f\<lparr>density := 0\<rparr>) (fixtureList (bodies w b))\<rparr>)\<rparr>"

section \<open>executor.js\<close>

definition MAX_EPHEMERAL :: nat where
  "MAX_EPHEMERAL = 200"

text \<open>
  A thrown value: one whose \<^verbatim>\<open>message\<close> property reads as the given string, or
  \<^verbatim>\<open>null\<close>/\<^verbatim>\<open>undefined\<close>, on which reading \<^verbatim>\<open>message\<close> raises a TypeError.
\<close>

datatype exn = Error string | Nullish

definition TypeError_message :: string where
  "TypeError_message = ''Cannot read properties of null''"

fun wrap_error :: "string \<Rightarrow> exn \<Rightarrow> exn" where
  "wrap_error prefix (Error m) = Error (prefix @ m)"
| "wrap_error prefix Nullish = Error TypeError_message"

text \<open>
  Generated code is untrusted and arbitrary. What reaches the executor from one
  terminating call of it is the finite sequence of things it does through its parameters:
  calls of the \<^verbatim>\<open>registerObject\<close> parameter, effects on the world and its own objects,
  and possibly one uncaught exception, which ends the call. A generated \<^verbatim>\<open>update\<close> is
  given by the sequence it performs at each of its invocations. A call that never returns
  stalls the frame and has no model here, and neither have calls of the register
  capability from callbacks that generated code installs elsewhere.
\<close>

datatype action = Register obj_ref | Effect "world \<Rightarrow> world" | Throw exn

type_synonym generated_update = "nat \<Rightarrow> action list"

record program =
  setup_phase :: "action list"
  returned_update :: "generated_update option"

text \<open>
  \<^verbatim>\<open>new Function(..., code)\<close> is the engine's: it reads the value it is given as source
  text, and throws a SyntaxError with a message or gives a function of the spawn
  coordinates (the other arguments are fixed).
\<close>

type_synonym js_engine = "jsval \<Rightarrow> string + (real \<Rightarrow> real \<Rightarrow> program)"

text \<open>The variables of one \<^verbatim>\<open>execute\<close> call that its closures share.\<close>

record closure =
  inUpdate :: bool
  rootBodies :: "body_ref list"

text \<open>
  An entry of \<^verbatim>\<open>updaters\<close>. \<open>calls\<close> counts the invocations of \<^verbatim>\<open>origUpdate\<close>;
  \<open>hid\<close> is the identity of the handle object, given in creation order.
\<close>

record updater = closure +
  dead :: bool
  origUpdate :: generated_update
  calls :: nat
  hid :: nat

text \<open>
  The executor with its world; \<open>ephemeral_ring\<close> is its array \<^verbatim>\<open>ephemeral\<close>.
  \<open>ticked\<close>, \<open>invoked\<close> and \<open>warned\<close> record, in order, the handles whose
  \<^verbatim>\<open>update\<close> was called, whose \<^verbatim>\<open>origUpdate\<close> was called, and whose exception reached
  \<^verbatim>\<open>console.warn\<close>; \<open>created\<close> counts the handles made so far.
\<close>

record sim =
  world :: world
  ephemeral_ring :: "obj_ref list"
  updaters :: "updater list"
  created :: nat
  ticked :: "nat list"
  invoked :: "nat list"
  warned :: "nat list"

text \<open>\<^verbatim>\<open>createExecutor\<close>: no updaters, an empty ring buffer.\<close>

definition createExecutor :: "world \<Rightarrow> sim" where
  "createExecutor w =
     \<lparr>world = w, ephemeral_ring = [], updaters = [], created = 0,
      ticked = [], invoked = [], warned = []\<rparr>"

definition wrappedRegister ::
  "obj_ref \<Rightarrow> ('a closure_scheme \<times> sim) \<Rightarrow> ('a closure_scheme \<times> sim)" where
  "wrappedRegister obj cs =
     (let c = fst cs; s = snd cs;
          w1 = registerObject (set_spawned (world s) obj) obj
      in if inUpdate c
         then (let w2 = set_ephemeral w1 obj;
                   w3 = make_weightless w2 (body (heap w2 obj));
                   ring = ephemeral_ring s @ [obj]
               in if length ring > MAX_EPHEMERAL
                  then (let old = hd ring
                        in (c, s\<lparr>world := destroyBody (unregisterObject w3 old) (body (heap w3 old)),
                                 ephemeral_ring := tl ring\<rparr>))
                  else (c, s\<lparr>world := w3, ephemeral_ring := ring\<rparr>))
         else (c\<lparr>rootBodies := rootBodies c @ [body (heap w1 obj)]\<rparr>, s\<lparr>world := w1\<rparr>))"

fun run_actions ::
  "action list \<Rightarrow> ('a closure_scheme \<times> sim) \<Rightarrow> exn option \<times> ('a closure_scheme \<times> sim)" where
  "run_actions [] cs = (None, cs)"
| "run_actions (Register obj # acts) cs = run_actions acts (wrappedRegister obj cs)"
| "run_actions (Effect f # acts) cs = run_actions acts (fst cs, (snd cs)\<lparr>world := f (world (snd cs))\<rparr>)"
| "run_actions (Throw e # acts) cs = (Some e, cs)"

definition execute :: "js_engine \<Rightarrow> jsval \<Rightarrow> real \<Rightarrow> real \<Rightarrow> sim \<Rightarrow> exn option \<times> sim" where
  "execute new_Function code spawnX spawnY s =
     (case new_Function code of
        Inl m \<Rightarrow> (Some (Error (''Syntax error in generated code: '' @ m)), s)
      | Inr fn \<Rightarrow>
          (case run_actions (setup_phase (fn spawnX spawnY)) (\<lparr>inUpdate = False, rootBodies = []\<rparr>, s) of
             (Some e, c, s') \<Rightarrow> (Some (wrap_error ''Runtime error in generated code: '' e), s')
           | (None, c, s') \<Rightarrow>
               (case returned_update (fn spawnX spawnY) of
                  None \<Rightarrow> (None, s')
                | Some orig \<Rightarrow>
                    (None, s'\<lparr>updaters := updaters s' @
                                 [\<lparr>inUpdate = inUpdate c, rootBodies = rootBodies c, dead = False,
                                   origUpdate = orig, calls = 0, hid = created s'\<rparr>],
                               created := Suc (created s')\<rparr>))))"

definition update :: "updater \<Rightarrow> sim \<Rightarrow> exn option \<times> (updater \<times> sim)" where
  "update h s0 =
     (let s = s0\<lparr>ticked := ticked s0 @ [hid h]\<rparr>
      in if rootBodies h \<noteq> [] \<and> list_all (\<lambda>b. \<not> isActive (bodies (world s) b)) (rootBodies h)
         then (None, h\<lparr>dead := True\<rparr>, s)
         else (case run_actions (origUpdate h (calls h))
                      (h\<lparr>inUpdate := True, calls := Suc (calls h)\<rparr>,
                       s\<lparr>invoked := invoked s @ [hid h]\<rparr>) of
                 (Some e, h', s') \<Rightarrow> (Some e, h', s')
               | (None, h', s') \<Rightarrow> (None, h'\<lparr>inUpdate := False\<rparr>, s')))"

section \<open>The game loop\<close>

text \<open>
  Lines 104 to 112 of the main module: \<open>loop_from i\<close> is the \<^verbatim>\<open>for\<close> loop when its
  counter is \<open>i - 1\<close>; \<^verbatim>\<open>splice(i, 1)\<close> removes the entry at the counter.
\<close>

fun loop_from :: "nat \<Rightarrow> sim \<Rightarrow> sim" where
  "loop_from 0 s = s"
| "loop_from (Suc i) s =
     (case update (updaters s ! i) s of
        (None, h', s') \<Rightarrow> loop_from i (s'\<lparr>updaters := (updaters s')[i := h']\<rparr>)
      | (Some e, h', s') \<Rightarrow>
          loop_from i (s'\<lparr>warned := warned s' @ [hid h'],
                          updaters := take i (updaters s') @ drop (Suc i) (updaters s')\<rparr>))"

definition loop :: "sim \<Rightarrow> sim" where
  "loop s = loop_from (length (updaters s)) s"

text \<open>
  The rest of a frame (cursor, icon, \<^verbatim>\<open>world.step\<close>, out-of-bounds cleanup, drawing) is
  outside the executor: it can change the world in any way, and nothing else.
\<close>

fun frames :: "(world \<Rightarrow> world) list \<Rightarrow> sim \<Rightarrow> sim" where
  "frames [] s = s"
| "frames (rest_of_frame # later) s =
     frames later ((loop s)\<lparr>world := rest_of_frame (world (loop s))\<rparr>)"

section \<open>The main module: handleSearch\<close>

text \<open>
  \<^verbatim>\<open>handleSearch\<close> is an async function. Between its \<^verbatim>\<open>await\<close>s other
  events run (frames, further submissions), so it is modelled by its suspended
  invocations and one step per event. A suspended invocation waits at line 55 for
  \<^verbatim>\<open>normalizePrompt\<close>, inside \<^verbatim>\<open>cache.get\<close> (line 59) for the remote read, or at line 68
  for \<^verbatim>\<open>generateObject\<close>.
\<close>

datatype task =
    AwaitNormalize string
  | AwaitRemote string string
  | AwaitGenerate string string

datatype notification = Loading string | Success string | Failure string

record config =
  new_Function :: js_engine
  firebaseUrl :: string
  W :: real
  H :: real

record app =
  sim :: sim
  storage :: local_storage
  isGenerating :: bool
  in_flight :: "task list"
  searchBar_loading :: bool
  geminiIcon_loading :: bool
  overlay :: "notification list"
  puts :: "(string \<times> dom_text) list"

text \<open>
  What settles an awaited promise: the normaliser's key or its rejection, the outcome of
  the remote read, the generator's code or its rejection.
\<close>

datatype response =
    NormalizeResult "exn + string"
  | RemoteResult fetch_result
  | GenerateResult "exn + string"

text \<open>
  The events: a submission from the search bar, the settling of the promise the \<open>i\<close>-th
  suspended invocation waits for (with the value \<^verbatim>\<open>Math.random()\<close> gives if it goes on to
  spawn), and a frame of the game loop followed by the rest of the frame.
\<close>

datatype event =
    Submit string
  | Settle nat response real
  | Frame "world \<Rightarrow> world"

text \<open>The \<^verbatim>\<open>finally\<close> block (lines 80 to 84).\<close>

definition finish :: "app \<Rightarrow> app" where
  "finish a = a\<lparr>isGenerating := False, searchBar_loading := False, geminiIcon_loading := False\<rparr>"

text \<open>
  The \<^verbatim>\<open>catch\<close> block (lines 77 to 79) followed by \<^verbatim>\<open>finally\<close>: reading \<^verbatim>\<open>e.message\<close> of
  \<^verbatim>\<open>null\<close> throws before \<^verbatim>\<open>showError\<close> is reached; \<^verbatim>\<open>finally\<close> runs all the same.
\<close>

definition fail :: "exn \<Rightarrow> app \<Rightarrow> app" where
  "fail e a =
     finish (case e of
               Error m \<Rightarrow> a\<lparr>overlay := overlay a @ [Failure m]\<rparr>
             | Nullish \<Rightarrow> a)"

definition spawnX :: "config \<Rightarrow> real \<Rightarrow> real" where
  "spawnX cfg rnd = W cfg * 0.65 + rnd * (W cfg * 0.25)"

text \<open>Lines 60 to 65: a cache hit.\<close>

definition on_cached :: "config \<Rightarrow> string \<Rightarrow> real \<Rightarrow> jsval \<Rightarrow> app \<Rightarrow> app" where
  "on_cached cfg text rnd cached a =
     (case execute (new_Function cfg) cached (spawnX cfg rnd) (H cfg * 0.15) (sim a) of
        (None, s') \<Rightarrow>
          finish (a\<lparr>sim := s', overlay := overlay a @ [Success (''Created \"'' @ text @ ''\"! (cached)'')]\<rparr>)
      | (Some e, s') \<Rightarrow> fail e (a\<lparr>sim := s'\<rparr>))"

text \<open>Lines 68 to 76: the generator has answered.\<close>

definition on_generated :: "config \<Rightarrow> string \<Rightarrow> string \<Rightarrow> real \<Rightarrow> string \<Rightarrow> app \<Rightarrow> app" where
  "on_generated cfg text key rnd code a =
     (case execute (new_Function cfg) (Str code) (spawnX cfg rnd) 5 (sim a) of
        (None, s') \<Rightarrow>
          finish (a\<lparr>sim := s',
                    storage := fst (cache_set (firebaseUrl cfg) (storage a) key (Str code)),
                    puts := puts a @ (case snd (cache_set (firebaseUrl cfg) (storage a) key (Str code)) of
                                       None \<Rightarrow> [] | Some put \<Rightarrow> [put]),
                    overlay := overlay a @ [Success (''Created \"'' @ text @ ''\"!'')]\<rparr>)
      | (Some e, s') \<Rightarrow> fail e (a\<lparr>sim := s'\<rparr>))"

text \<open>The suspended invocation \<open>i\<close> ends, or goes on to its next \<^verbatim>\<open>await\<close>.\<close>

definition drop_task :: "nat \<Rightarrow> app \<Rightarrow> app" where
  "drop_task i a = a\<lparr>in_flight := take i (in_flight a) @ drop (Suc i) (in_flight a)\<rparr>"

definition next_task :: "nat \<Rightarrow> task \<Rightarrow> app \<Rightarrow> app" where
  "next_task i t a = a\<lparr>in_flight := (in_flight a)[i := t]\<rparr>"

text \<open>
  An invocation resumes with the value its promise settled with. After the key arrives,
  \<^verbatim>\<open>cache.get\<close> runs up to its own \<^verbatim>\<open>await\<close>: a local hit is returned without any
  request, and without a configured remote URL \<^verbatim>\<open>getFirebase\<close> returns \<^verbatim>\<open>null\<close> at once;
  otherwise the invocation waits for the remote read. A settling value of another kind
  than the one awaited cannot occur and changes nothing.
\<close>

fun resume :: "config \<Rightarrow> nat \<Rightarrow> real \<Rightarrow> task \<Rightarrow> response \<Rightarrow> app \<Rightarrow> app" where
  "resume cfg i rnd (AwaitNormalize text) (NormalizeResult (Inl e)) a = fail e (drop_task i a)"
| "resume cfg i rnd (AwaitNormalize text) (NormalizeResult (Inr key)) a =
     (let local = getLocal (storage a) key
      in if truthy local then on_cached cfg text rnd local (drop_task i a)
         else if firebaseUrl cfg = [] then next_task i (AwaitGenerate text key) a
         else next_task i (AwaitRemote text key) a)"
| "resume cfg i rnd (AwaitRemote text key) (RemoteResult res) a =
     (let remote = firebase_value res
      in if truthy remote
         then on_cached cfg text rnd remote ((drop_task i a)\<lparr>storage := setLocal (storage a) key remote\<rparr>)
         else next_task i (AwaitGenerate text key) a)"
| "resume cfg i rnd (AwaitGenerate text key) (GenerateResult (Inl e)) a = fail e (drop_task i a)"
| "resume cfg i rnd (AwaitGenerate text key) (GenerateResult (Inr code)) a =
     on_generated cfg text key rnd code (drop_task i a)"
| "resume cfg i rnd t r a = a"

text \<open>
  The call of \<^verbatim>\<open>handleSearch\<close>: line 47 rejects a submission while \<open>isGenerating\<close> is
  set; otherwise lines 48 to 55 run up to the first \<^verbatim>\<open>await\<close>.
\<close>

definition handleSearch :: "string \<Rightarrow> app \<Rightarrow> app" where
  "handleSearch text a =
     (if isGenerating a then a
      else a\<lparr>isGenerating := True, searchBar_loading := True, geminiIcon_loading := True,
             overlay := overlay a @ [Loading (''Generating \"'' @ text @ ''\"...'')],
             in_flight := in_flight a @ [AwaitNormalize text]\<rparr>)"

fun step :: "config \<Rightarrow> event \<Rightarrow> app \<Rightarrow> app" where
  "step cfg (Submit text) a = handleSearch text a"
| "step cfg (Settle i r rnd) a =
     (if i < length (in_flight a) then resume cfg i rnd (in_flight a ! i) r a else a)"
| "step cfg (Frame rest_of_frame) a =
     a\<lparr>sim := (loop (sim a))\<lparr>world := rest_of_frame (world (loop (sim a)))\<rparr>\<rparr>"

text \<open>The application when the module has been loaded.\<close>

definition start :: "world \<Rightarrow> local_storage \<Rightarrow> app" where
  "start w ls =
     \<lparr>sim = createExecutor w, storage = ls, isGenerating = False, in_flight = [],
      searchBar_loading = False, geminiIcon_loading = False, overlay = [], puts = []\<rparr>"

section \<open>Notions used in the statements\<close>

definition body_of :: "sim \<Rightarrow> obj_ref \<Rightarrow> body_ref" where
  "body_of s obj = body (heap (world s) obj)"

definition all_roots_inactive :: "updater \<Rightarrow> world \<Rightarrow> bool" where
  "all_roots_inactive h w =
     (rootBodies h \<noteq> [] \<and> list_all (\<lambda>b. \<not> isActive (bodies w b)) (rootBodies h))"

fun throws :: "action list \<Rightarrow> bool" where
  "throws [] = False"
| "throws (Throw e # acts) = True"
| "throws (a # acts) = throws acts"

text \<open>The handle and the state on entry to \<^verbatim>\<open>origUpdate\<close> (executor.js, line 136).\<close>

definition entered :: "updater \<Rightarrow> sim \<Rightarrow> updater \<times> sim" where
  "entered h s = (h\<lparr>inUpdate := True, calls := Suc (calls h)\<rparr>,
                  s\<lparr>ticked := ticked s @ [hid h], invoked := invoked s @ [hid h]\<rparr>)"

text \<open>
  The same loop read as a pass over the handles in the order they are ticked: the
  survivors come back in that order, with the state the pass leaves.
\<close>

fun tick_all :: "updater list \<Rightarrow> sim \<Rightarrow> updater list \<times> sim" where
  "tick_all [] s = ([], s)"
| "tick_all (h # hs) s =
     (case update h s of
        (None, h', s') \<Rightarrow> (h' # fst (tick_all hs s'), snd (tick_all hs s'))
      | (Some e, h', s') \<Rightarrow> tick_all hs (s'\<lparr>warned := warned s' @ [hid h']\<rparr>))"

text \<open>
  The state in which the \<^verbatim>\<open>update\<close> of a handle is called during a frame, \<open>after\<close>
  being the handles registered after it (they are ticked before it).
\<close>

definition at_turn :: "updater list \<Rightarrow> sim \<Rightarrow> sim" where
  "at_turn after s = snd (tick_all (rev after) s)"

text \<open>At most one submission is in flight, and the lock is held exactly while one is.\<close>

definition single_flight :: "app \<Rightarrow> bool" where
  "single_flight a = (length (in_flight a) \<le> 1 \<and> (isGenerating a \<longleftrightarrow> in_flight a \<noteq> []))"

text \<open>The two errors \<open>execute\<close> raises (executor.js, lines 115 and 122).\<close>

definition syntax_error :: "string \<Rightarrow> exn" where
  "syntax_error m = Error (''Syntax error in generated code: '' @ m)"

definition runtime_error :: "exn \<Rightarrow> exn" where
  "runtime_error e = wrap_error ''Runtime error in generated code: '' e"

text \<open>
  What every state of the running application satisfies: the handles in \<open>updaters\<close> are
  distinct objects, created before the counter, and the ring buffer is within capacity.
\<close>

definition handles_ok :: "sim \<Rightarrow> bool" where
  "handles_ok s = (distinct (map hid (updaters s)) \<and> (\<forall>h \<in> set (updaters s). hid h < created s))"

definition app_ok :: "app \<Rightarrow> bool" where
  "app_ok a = (handles_ok (sim a) \<and> length (ephemeral_ring (sim a)) \<le> MAX_EPHEMERAL)"

section \<open>Scenarios\<close>

text \<open>Concrete environments at which the properties below are evaluated.\<close>

definition fresh_storage :: local_storage where
  "fresh_storage = \<lparr>items = Map.empty, exceeds_quota = (\<lambda>k v. False)\<rparr>"

definition db_url :: string where
  "db_url = ''https://db.example''"

definition remote_holding :: "string \<Rightarrow> string \<Rightarrow> remote" where
  "remote_holding key code =
     (\<lambda>url. if url = cache_url db_url key then Response True (Json (Str code))
           else Response True (Json Null))"

definition plain_object :: "body_ref \<Rightarrow> tracked_object" where
  "plain_object b = \<lparr>body = b, spawned = False, ephemeral = False\<rparr>"

definition plain_body :: planck_body where
  "plain_body = \<lparr>isEphemeral = False, gravityScale = 1, fixtureList = [\<lparr>density = 1\<rparr>], isActive = True\<rparr>"

text \<open>A world with an empty registry in which object \<open>n\<close> is backed by body \<open>n\<close>.\<close>

definition fresh_world :: world where
  "fresh_world = \<lparr>objects = [], heap = plain_object, bodies = (\<lambda>b. plain_body), destroyed = []\<rparr>"

definition in_setup :: closure where
  "in_setup = \<lparr>inUpdate = False, rootBodies = []\<rparr>"

definition in_tick :: closure where
  "in_tick = \<lparr>inUpdate = True, rootBodies = []\<rparr>"

text \<open>A world in which object 7 already carries the \<open>ephemeral\<close> flag.\<close>

definition tagged_world :: world where
  "tagged_world = fresh_world\<lparr>heap := plain_object(7 := \<lparr>body = 7, spawned = False, ephemeral = True\<rparr>)\<rparr>"

definition engine :: js_engine where
  "engine code =
     (if code = Str ''}'' then Inl ''Unexpected token }''
      else Inr (\<lambda>spawnX spawnY.
        if code = Str ''still'' then \<lparr>setup_phase = [], returned_update = Some (\<lambda>n. [])\<rparr>
        else if code = Str ''rain'' then
          \<lparr>setup_phase = [Register 0], returned_update = Some (\<lambda>n. [Register (Suc n)])\<rparr>
        else if code = Str ''boom'' then
          \<lparr>setup_phase = [],
           returned_update = Some (\<lambda>n. if n = 2 then [Throw (Error ''boom'')] else [])\<rparr>
        else if code = Str ''crash'' then
          \<lparr>setup_phase = [Register 0, Throw (Error ''x is not defined'')], returned_update = None\<rparr>
        else \<lparr>setup_phase = [Register 0], returned_update = None\<rparr>))"

definition two_behaviours :: sim where
  "two_behaviours =
     snd (execute engine (Str ''boom'') 0 0 (snd (execute engine (Str ''still'') 0 0 (createExecutor fresh_world))))"

text \<open>The two handles of \<open>two_behaviours\<close> after \<open>c\<close> invocations.\<close>

definition still_handle :: "nat \<Rightarrow> updater" where
  "still_handle c =
     \<lparr>inUpdate = False, rootBodies = [], dead = False, origUpdate = (\<lambda>n. []), calls = c, hid = 0\<rparr>"

definition boom_handle :: "nat \<Rightarrow> updater" where
  "boom_handle c =
     \<lparr>inUpdate = False, rootBodies = [], dead = False,
      origUpdate = (\<lambda>n. if n = 2 then [Throw (Error ''boom'')] else []), calls = c, hid = 1\<rparr>"

definition deactivate :: "body_ref \<Rightarrow> world \<Rightarrow> world" where
  "deactivate b w = w\<lparr>bodies := (bodies w)(b := (bodies w b)\<lparr>isActive := False\<rparr>)\<rparr>"

definition rain_sim :: sim where
  "rain_sim = snd (execute engine (Str ''rain'') 0 0 (createExecutor fresh_world))"

definition reaped_sim :: sim where
  "reaped_sim = rain_sim\<lparr>world := deactivate 0 (world rain_sim)\<rparr>"

text \<open>Runs of the application used as concrete inputs below.\<close>

definition cfg0 :: config where
  "cfg0 = \<lparr>new_Function = engine, firebaseUrl = db_url, W = 100, H = 50\<rparr>"

definition app0 :: app where
  "app0 = start fresh_world fresh_storage"

definition offline :: response where
  "offline = NormalizeResult (Inl (Error ''Failed to fetch''))"

definition malformed_run :: "event list" where
  "malformed_run =
     [Submit ''gizmo'',
      Settle 0 (NormalizeResult (Inr ''bad'')) 0,
      Settle 0 (RemoteResult (Response True (Json (Str ''}'')))) 0]"

definition miss_run :: "event list" where
  "miss_run =
     [Submit ''gizmo'',
      Settle 0 (NormalizeResult (Inr ''bad'')) 0,
      Settle 0 (RemoteResult NetworkError) 0]"

definition hit_run :: "event list" where
  "hit_run = [Submit ''gizmo'', Settle 0 (NormalizeResult (Inr ''bad'')) 0]"

section \<open>Verified properties\<close>

subsection \<open>The tiered cache\<close>

lemma getLocal_setLocal:
  "\<not> exceeds_quota ls (LS_PREFIX @ K) (Json v) \<Longrightarrow> getLocal (setLocal ls K v) K = v"
  by (simp add: getLocal_def setLocal_def setItem_def getItem_def JSON_stringify_def)

text \<open>
  C3, as stated: for every key \<open>K\<close> and every artifact \<open>A\<close>, \<open>set(K, A)\<close> followed by
  \<open>get(K)\<close> returns \<open>A\<close>, also with the remote tier unreachable. It fails for the empty
  artifact: its JSON text is stored, but \<^verbatim>\<open>if (local)\<close> takes the parsed empty string for
  a miss, and with the remote tier unreachable \<open>get\<close> returns \<^verbatim>\<open>null\<close>.
\<close>

theorem cache_round_trip_counterexample:
  "fst (cache_get db_url unreachable (fst (cache_set db_url fresh_storage ''rain'' (Str ''''))) ''rain'')
   \<noteq> Str ''''"
  by (simp add: cache_get_def cache_set_def getLocal_def setLocal_def setItem_def getItem_def
      JSON_stringify_def fresh_storage_def getFirebase_def unreachable_def firebase_value_def Let_def)

text \<open>
  C3, amended: for every key \<open>K\<close> and every non-empty artifact \<open>A\<close> whose local write
  the storage accepts, \<open>set(K, A)\<close> followed immediately by \<open>get(K)\<close> returns \<open>A\<close>,
  whatever the remote tier answers (unreachable included) and whether or not a remote
  URL is configured; \<open>set\<close> never consults the remote tier and cannot fail.
\<close>

theorem cache_round_trip:
  assumes "A \<noteq> []" and "\<not> exceeds_quota ls (LS_PREFIX @ K) (Json (Str A))"
  shows "fst (cache_get url net (fst (cache_set url ls K (Str A))) K) = Str A"
  using assms by (simp add: cache_get_def cache_set_def getLocal_setLocal Let_def)

theorem cache_round_trip_witness:
  "fst (cache_get db_url unreachable (fst (cache_set db_url fresh_storage ''rain'' (Str ''return 1''))) ''rain'')
   = Str ''return 1''"
  by (rule cache_round_trip) (simp_all add: fresh_storage_def)

text \<open>
  The other way a round trip is lost: the storage refuses the write, \<^verbatim>\<open>setLocal\<close> swallows
  the exception, and with the remote tier unreachable the key is still absent.
\<close>

lemma refused_write_is_lost:
  assumes "exceeds_quota ls (LS_PREFIX @ K) (Json (Str A))" and "getItem ls (LS_PREFIX @ K) = None"
  shows "fst (cache_get url unreachable (fst (cache_set url ls K (Str A))) K) = Null"
  using assms
  by (simp add: cache_get_def cache_set_def getLocal_def setLocal_def setItem_def getItem_def
      JSON_stringify_def getFirebase_def unreachable_def firebase_value_def Let_def)

text \<open>
  C7, as stated: with no local entry for \<open>K\<close> and the remote tier holding \<open>(K, A)\<close>,
  \<open>get(K)\<close> returns \<open>A\<close> after writing it into the local tier. It fails for the empty
  artifact: \<^verbatim>\<open>if (remote)\<close> takes it for a miss, nothing is promoted and \<open>get\<close> returns
  \<^verbatim>\<open>null\<close>.
\<close>

theorem cache_promotion_counterexample:
  "cache_get db_url (remote_holding ''rain'' '''') fresh_storage ''rain'' \<noteq>
     (Str '''', setLocal fresh_storage ''rain'' (Str ''''))"
  by (simp add: cache_get_def getLocal_def getItem_def fresh_storage_def getFirebase_def
      remote_holding_def firebase_value_def db_url_def Let_def)

text \<open>
  C7, amended: with a remote URL configured, no local entry for \<open>K\<close>, the remote tier
  answering \<open>A\<close> for \<open>K\<close>, \<open>A\<close> non-empty and the local write accepted by the storage,
  \<open>get(K)\<close> returns \<open>A\<close> together with the local tier in which \<open>A\<close> is stored under
  \<open>K\<close>, and a further \<open>get(K)\<close> on that local tier with the remote tier unreachable
  returns \<open>A\<close> again.
\<close>

theorem cache_promotion:
  assumes "url \<noteq> []"
    and "getItem ls (LS_PREFIX @ K) = None"
    and "net (cache_url url K) = Response True (Json (Str A))"
    and "A \<noteq> []"
    and "\<not> exceeds_quota ls (LS_PREFIX @ K) (Json (Str A))"
  shows "cache_get url net ls K = (Str A, setLocal ls K (Str A))
       \<and> getItem (setLocal ls K (Str A)) (LS_PREFIX @ K) = Some (Json (Str A))
       \<and> cache_get url unreachable (setLocal ls K (Str A)) K = (Str A, setLocal ls K (Str A))"
  using assms
  by (simp add: cache_get_def getLocal_setLocal getFirebase_def firebase_value_def Let_def unreachable_def)
     (simp add: getLocal_def setLocal_def setItem_def getItem_def JSON_stringify_def Let_def)

theorem cache_promotion_witness:
  "cache_get db_url (remote_holding ''rain'' ''return 1'') fresh_storage ''rain''
     = (Str ''return 1'', setLocal fresh_storage ''rain'' (Str ''return 1''))
   \<and> getItem (setLocal fresh_storage ''rain'' (Str ''return 1'')) (LS_PREFIX @ ''rain'')
     = Some (Json (Str ''return 1''))
   \<and> cache_get db_url unreachable (setLocal fresh_storage ''rain'' (Str ''return 1'')) ''rain''
     = (Str ''return 1'', setLocal fresh_storage ''rain'' (Str ''return 1''))"
  by (rule cache_promotion)
     (simp_all add: fresh_storage_def getItem_def remote_holding_def db_url_def)

subsection \<open>The register capability\<close>

lemma wrappedRegister_setup:
  "\<not> inUpdate c \<Longrightarrow>
   wrappedRegister obj (c, s) =
     (c\<lparr>rootBodies := rootBodies c @ [body (heap (world s) obj)]\<rparr>,
      s\<lparr>world := registerObject (set_spawned (world s) obj) obj\<rparr>)"
  by (simp add: wrappedRegister_def Let_def registerObject_def set_spawned_def)

lemma wrappedRegister_update_room:
  "inUpdate c \<Longrightarrow> length (ephemeral_ring s) < MAX_EPHEMERAL \<Longrightarrow>
   wrappedRegister obj (c, s) =
     (c, s\<lparr>world := make_weightless (set_ephemeral (registerObject (set_spawned (world s) obj) obj) obj)
                        (body (heap (world s) obj)),
            ephemeral_ring := ephemeral_ring s @ [obj]\<rparr>)"
  by (simp add: wrappedRegister_def Let_def registerObject_def set_spawned_def set_ephemeral_def)

lemma wrappedRegister_update_full:
  "inUpdate c \<Longrightarrow> length (ephemeral_ring s) \<ge> MAX_EPHEMERAL \<Longrightarrow> ephemeral_ring s = old # rest \<Longrightarrow>
   wrappedRegister obj (c, s) =
     (c, s\<lparr>world := destroyBody
                (unregisterObject
                  (make_weightless (set_ephemeral (registerObject (set_spawned (world s) obj) obj) obj)
                        (body (heap (world s) obj))) old)
                (body (heap (world s) old)),
            ephemeral_ring := rest @ [obj]\<rparr>)"
  by (simp add: wrappedRegister_def Let_def registerObject_def set_spawned_def set_ephemeral_def
      make_weightless_def)

lemma ring_bound_wrappedRegister:
  "length (ephemeral_ring s) \<le> MAX_EPHEMERAL \<Longrightarrow>
   length (ephemeral_ring (snd (wrappedRegister obj (c, s)))) \<le> MAX_EPHEMERAL"
  by (simp add: wrappedRegister_def Let_def)

lemma wrappedRegister_updaters [simp]:
  "updaters (snd (wrappedRegister obj cs)) = updaters (snd cs)"
  "created (snd (wrappedRegister obj cs)) = created (snd cs)"
  "ticked (snd (wrappedRegister obj cs)) = ticked (snd cs)"
  "invoked (snd (wrappedRegister obj cs)) = invoked (snd cs)"
  "warned (snd (wrappedRegister obj cs)) = warned (snd cs)"
  by (simp_all add: wrappedRegister_def Let_def)

lemma wrappedRegister_inUpdate [simp]:
  "inUpdate (fst (wrappedRegister obj cs)) = inUpdate (fst cs)"
  by (simp add: wrappedRegister_def Let_def)

lemma body_of_wrappedRegister [simp]:
  "body_of (snd (wrappedRegister obj cs)) = body_of (snd cs)"
  by (rule ext) (simp add: body_of_def wrappedRegister_def Let_def registerObject_def set_spawned_def
      set_ephemeral_def make_weightless_def unregisterObject_def destroyBody_def)


lemma remove1_base:
  "old \<notin> set base \<Longrightarrow> remove1 old (base @ old # xs) = base @ xs"
  by (induction base) auto

lemma register_one_update:
  assumes "inUpdate c" and "ephemeral_ring s = r" and "length r \<le> MAX_EPHEMERAL"
    and "objects (world s) = base @ r" and "set base \<inter> set r = {}"
  shows "fst (wrappedRegister obj (c, s)) = c
       \<and> ephemeral_ring (snd (wrappedRegister obj (c, s))) = drop (length (r @ [obj]) - MAX_EPHEMERAL) (r @ [obj])
       \<and> objects (world (snd (wrappedRegister obj (c, s)))) = base @ drop (length (r @ [obj]) - MAX_EPHEMERAL) (r @ [obj])
       \<and> destroyed (world (snd (wrappedRegister obj (c, s)))) =
           destroyed (world s) @ map (body_of s) (take (length (r @ [obj]) - MAX_EPHEMERAL) (r @ [obj]))"
proof (cases "length r < MAX_EPHEMERAL")
  case True
  then show ?thesis
    using assms
    by (simp add: wrappedRegister_update_room registerObject_def set_spawned_def set_ephemeral_def
        make_weightless_def)
next
  case False
  with assms(3) have len: "length r = MAX_EPHEMERAL" by simp
  then obtain old rest where r: "r = old # rest"
    by (cases r) (auto simp: MAX_EPHEMERAL_def)
  have notin: "old \<notin> set base" using assms(5) r by auto
  have "remove1 old (base @ old # rest @ [obj]) = base @ rest @ [obj]"
    using notin by (rule remove1_base)
  then show ?thesis
    using assms(1,2,4) len r
    by (simp add: wrappedRegister_update_full registerObject_def set_spawned_def set_ephemeral_def
        make_weightless_def unregisterObject_def destroyBody_def body_of_def)
qed

lemma register_many_update:
  assumes "inUpdate c" and "ephemeral_ring s = r" and "length r \<le> MAX_EPHEMERAL"
    and "objects (world s) = base @ r" and "set base \<inter> set (r @ objs) = {}"
    and "distinct (r @ objs)"
  shows "fst (fold wrappedRegister objs (c, s)) = c
       \<and> ephemeral_ring (snd (fold wrappedRegister objs (c, s))) = drop (length (r @ objs) - MAX_EPHEMERAL) (r @ objs)
       \<and> objects (world (snd (fold wrappedRegister objs (c, s)))) = base @ drop (length (r @ objs) - MAX_EPHEMERAL) (r @ objs)
       \<and> destroyed (world (snd (fold wrappedRegister objs (c, s)))) =
           destroyed (world s) @ map (body_of s) (take (length (r @ objs) - MAX_EPHEMERAL) (r @ objs))"
  using assms
proof (induction objs arbitrary: s r)
  case Nil
  then show ?case by simp
next
  case (Cons obj objs)
  let ?cs = "wrappedRegister obj (c, s)"
  let ?k1 = "length (r @ [obj]) - MAX_EPHEMERAL"
  let ?r1 = "drop ?k1 (r @ [obj])"
  have base_r: "set base \<inter> set r = {}" using Cons.prems(5) by auto
  note one = register_one_update[OF Cons.prems(1) Cons.prems(2) Cons.prems(3) Cons.prems(4) base_r, of obj]
  have cs: "?cs = (c, snd ?cs)" using one by (metis prod.collapse)
  have len1: "length ?r1 \<le> MAX_EPHEMERAL" using Cons.prems(3) by simp
  have sub: "set ?r1 \<subseteq> set (r @ [obj])" by (rule set_drop_subset)
  have disj1: "set base \<inter> set (?r1 @ objs) = {}"
    using Cons.prems(5) sub by auto
  have dist1: "distinct (?r1 @ objs)"
  proof -
    have "distinct ((r @ [obj]) @ objs)" using Cons.prems(6) by simp
    then have d: "distinct (drop ?k1 ((r @ [obj]) @ objs))" by (rule distinct_drop)
    have e: "?k1 - length (r @ [obj]) = 0" by simp
    have "drop ?k1 ((r @ [obj]) @ objs) = ?r1 @ drop (?k1 - length (r @ [obj])) objs"
      by (rule drop_append)
    then have "drop ?k1 ((r @ [obj]) @ objs) = ?r1 @ objs"
      by (simp only: e drop_0)
    with d show ?thesis by (simp only:)
  qed
  have IH: "fst (fold wrappedRegister objs (c, snd ?cs)) = c
       \<and> ephemeral_ring (snd (fold wrappedRegister objs (c, snd ?cs))) = drop (length (?r1 @ objs) - MAX_EPHEMERAL) (?r1 @ objs)
       \<and> objects (world (snd (fold wrappedRegister objs (c, snd ?cs)))) = base @ drop (length (?r1 @ objs) - MAX_EPHEMERAL) (?r1 @ objs)
       \<and> destroyed (world (snd (fold wrappedRegister objs (c, snd ?cs)))) =
           destroyed (world (snd ?cs)) @ map (body_of (snd ?cs)) (take (length (?r1 @ objs) - MAX_EPHEMERAL) (?r1 @ objs))"
    by (rule Cons.IH[OF Cons.prems(1) _ len1 _ disj1 dist1]) (simp_all add: one)
  have fold_eq: "fold wrappedRegister (obj # objs) (c, s) = fold wrappedRegister objs (c, snd ?cs)"
    using cs by simp
  have bo: "body_of (snd ?cs) = body_of s" by simp
  show ?case
  proof (cases "length r < MAX_EPHEMERAL")
    case True
    then have k1: "?k1 = 0" by simp
    show ?thesis
      unfolding fold_eq using IH one unfolding bo k1 by simp
  next
    case False
    with Cons.prems(3) have len: "length r = MAX_EPHEMERAL" by simp
    then obtain old rest where r: "r = old # rest"
      by (cases r) (auto simp: MAX_EPHEMERAL_def)
    have lr: "length rest = MAX_EPHEMERAL - 1" using len r by simp
    have M: "MAX_EPHEMERAL > 0" by (simp add: MAX_EPHEMERAL_def)
    show ?thesis
      unfolding fold_eq using IH one unfolding bo r using lr M
      by (simp add: Suc_diff_le)
  qed
qed


subsection \<open>What a call of generated code can and cannot change\<close>

lemma run_actions_fields [simp]:
  "updaters (snd (snd (run_actions acts cs))) = updaters (snd cs)"
  "created (snd (snd (run_actions acts cs))) = created (snd cs)"
  "ticked (snd (snd (run_actions acts cs))) = ticked (snd cs)"
  "invoked (snd (snd (run_actions acts cs))) = invoked (snd cs)"
  "warned (snd (snd (run_actions acts cs))) = warned (snd cs)"
  by (induction acts cs rule: run_actions.induct) simp_all

lemma run_actions_inUpdate [simp]:
  "inUpdate (fst (snd (run_actions acts cs))) = inUpdate (fst cs)"
  by (induction acts cs rule: run_actions.induct) simp_all

lemma wrappedRegister_closure:
  "inUpdate (fst cs) \<Longrightarrow> fst (wrappedRegister obj cs) = fst cs"
  by (simp add: wrappedRegister_def Let_def)

lemma run_actions_closure:
  "inUpdate (fst cs) \<Longrightarrow> fst (snd (run_actions acts cs)) = fst cs"
  by (induction acts cs rule: run_actions.induct) (simp_all add: wrappedRegister_closure)

lemma ring_bound_register:
  "length (ephemeral_ring (snd cs)) \<le> MAX_EPHEMERAL \<Longrightarrow>
   length (ephemeral_ring (snd (wrappedRegister obj cs))) \<le> MAX_EPHEMERAL"
  by (simp add: wrappedRegister_def Let_def)

lemma ring_bound_run_actions:
  "length (ephemeral_ring (snd cs)) \<le> MAX_EPHEMERAL \<Longrightarrow>
   length (ephemeral_ring (snd (snd (run_actions acts cs)))) \<le> MAX_EPHEMERAL"
  by (induction acts cs rule: run_actions.induct) (simp_all add: ring_bound_register)

lemma ring_bound_execute:
  assumes "length (ephemeral_ring s) \<le> MAX_EPHEMERAL"
  shows "length (ephemeral_ring (snd (execute nf code x y s))) \<le> MAX_EPHEMERAL"
proof (cases "nf code")
  case (Inl m)
  then show ?thesis using assms by (simp add: execute_def)
next
  case (Inr fn)
  obtain r c s' where run:
    "run_actions (setup_phase (fn x y)) (\<lparr>inUpdate = False, rootBodies = []\<rparr>, s) = (r, c, s')"
    by (metis prod.collapse)
  have "length (ephemeral_ring s') \<le> MAX_EPHEMERAL"
    using ring_bound_run_actions[of "(\<lparr>inUpdate = False, rootBodies = []\<rparr>, s)" "setup_phase (fn x y)"]
      assms run by simp
  then show ?thesis
    using Inr run by (simp add: execute_def split: option.splits)
qed

lemma ring_bound_update:
  assumes "length (ephemeral_ring s) \<le> MAX_EPHEMERAL"
  shows "length (ephemeral_ring (snd (snd (update h s)))) \<le> MAX_EPHEMERAL"
proof -
  let ?cs = "(h\<lparr>inUpdate := True, calls := Suc (calls h)\<rparr>,
              s\<lparr>ticked := ticked s @ [hid h], invoked := invoked s @ [hid h]\<rparr>)"
  obtain r h' s' where run: "run_actions (origUpdate h (calls h)) ?cs = (r, h', s')"
    by (metis prod.collapse)
  have "length (ephemeral_ring s') \<le> MAX_EPHEMERAL"
    using ring_bound_run_actions[of ?cs "origUpdate h (calls h)"] assms run by simp
  then show ?thesis
    using assms run by (simp add: update_def Let_def split: option.splits)
qed


subsection \<open>One tick\<close>

lemma throws_iff: "throws acts \<longleftrightarrow> (\<exists>e. Throw e \<in> set acts)"
  by (induction acts rule: throws.induct) auto

lemma run_actions_throws: "fst (run_actions acts cs) \<noteq> None \<longleftrightarrow> throws acts"
  by (induction acts cs rule: run_actions.induct) simp_all

lemma update_skip:
  "all_roots_inactive h (world s) \<Longrightarrow>
   update h s = (None, h\<lparr>dead := True\<rparr>, s\<lparr>ticked := ticked s @ [hid h]\<rparr>)"
  by (simp add: update_def all_roots_inactive_def Let_def)


lemma update_run:
  assumes "\<not> all_roots_inactive h (world s)"
  shows "update h s =
     (fst (run_actions (origUpdate h (calls h)) (entered h s)),
      (if throws (origUpdate h (calls h)) then h\<lparr>inUpdate := True, calls := Suc (calls h)\<rparr>
       else h\<lparr>inUpdate := False, calls := Suc (calls h)\<rparr>),
      snd (snd (run_actions (origUpdate h (calls h)) (entered h s))))"
proof -
  let ?run = "run_actions (origUpdate h (calls h)) (entered h s)"
  have c: "fst (snd ?run) = h\<lparr>inUpdate := True, calls := Suc (calls h)\<rparr>"
    using run_actions_closure[of "entered h s" "origUpdate h (calls h)"] by (simp add: entered_def)
  have t: "fst ?run \<noteq> None \<longleftrightarrow> throws (origUpdate h (calls h))"
    by (rule run_actions_throws)
  obtain r h' s' where run: "?run = (r, h', s')" by (metis prod.collapse)
  show ?thesis
    using assms c t run
    by (cases r) (auto simp: update_def all_roots_inactive_def Let_def entered_def)
qed

lemma update_throws_iff:
  "fst (update h s) \<noteq> None \<longleftrightarrow> \<not> all_roots_inactive h (world s) \<and> throws (origUpdate h (calls h))"
  using run_actions_throws[of "origUpdate h (calls h)" "entered h s"]
  by (cases "all_roots_inactive h (world s)") (simp_all add: update_skip update_run)

lemma update_fields [simp]:
  "updaters (snd (snd (update h s))) = updaters s"
  "created (snd (snd (update h s))) = created s"
  "warned (snd (snd (update h s))) = warned s"
  "ticked (snd (snd (update h s))) = ticked s @ [hid h]"
  "hid (fst (snd (update h s))) = hid h"
  by (cases "all_roots_inactive h (world s)"; simp add: update_skip update_run entered_def)+

lemma update_invoked:
  "invoked (snd (snd (update h s))) =
     (if all_roots_inactive h (world s) then invoked s else invoked s @ [hid h])"
  by (cases "all_roots_inactive h (world s)"; simp add: update_skip update_run entered_def)


subsection \<open>The loop as a pass over the handles\<close>

lemma wrappedRegister_upd_updaters:
  "wrappedRegister obj (c, s\<lparr>updaters := u\<rparr>) =
     (fst (wrappedRegister obj (c, s)), (snd (wrappedRegister obj (c, s)))\<lparr>updaters := u\<rparr>)"
  by (simp add: wrappedRegister_def Let_def)

lemma run_actions_upd_updaters:
  "run_actions acts (c, s\<lparr>updaters := u\<rparr>) =
     (fst (run_actions acts (c, s)), fst (snd (run_actions acts (c, s))),
      (snd (snd (run_actions acts (c, s))))\<lparr>updaters := u\<rparr>)"
proof (induction acts arbitrary: c s)
  case Nil
  then show ?case by simp
next
  case (Cons a acts)
  show ?case
  proof (cases a)
    case (Register obj)
    obtain c1 s1 where w: "wrappedRegister obj (c, s) = (c1, s1)" by (metis prod.collapse)
    show ?thesis
      using Cons.IH[of c1 s1] w Register by (simp add: wrappedRegister_upd_updaters)
  next
    case (Effect f)
    have sw: "s\<lparr>updaters := u, world := f (world s)\<rparr> = s\<lparr>world := f (world s)\<rparr>\<lparr>updaters := u\<rparr>"
      by simp
    have "run_actions (a # acts) (c, s\<lparr>updaters := u\<rparr>) =
            run_actions acts (c, s\<lparr>updaters := u, world := f (world s)\<rparr>)"
      using Effect by simp
    also have "\<dots> = run_actions acts (c, s\<lparr>world := f (world s)\<rparr>\<lparr>updaters := u\<rparr>)"
      by (simp only: sw)
    also note Cons.IH[of c "s\<lparr>world := f (world s)\<rparr>"]
    finally show ?thesis using Effect by simp
  next
    case (Throw e)
    then show ?thesis by simp
  qed
qed

lemma update_upd_updaters:
  "update h (s\<lparr>updaters := u\<rparr>) =
     (fst (update h s), fst (snd (update h s)), (snd (snd (update h s)))\<lparr>updaters := u\<rparr>)"
proof (cases "all_roots_inactive h (world s)")
  case True
  then show ?thesis by (simp add: update_skip)
next
  case False
  have e: "entered h (s\<lparr>updaters := u\<rparr>) = (fst (entered h s), (snd (entered h s))\<lparr>updaters := u\<rparr>)"
    by (simp add: entered_def)
  have r: "run_actions (origUpdate h (calls h)) (entered h (s\<lparr>updaters := u\<rparr>)) =
     (fst (run_actions (origUpdate h (calls h)) (entered h s)),
      fst (snd (run_actions (origUpdate h (calls h)) (entered h s))),
      (snd (snd (run_actions (origUpdate h (calls h)) (entered h s))))\<lparr>updaters := u\<rparr>)"
    unfolding e using run_actions_upd_updaters[where acts="origUpdate h (calls h)" and c="fst (entered h s)" and s="snd (entered h s)" and u=u]
    by simp
  show ?thesis using False by (simp add: update_run r)
qed

lemma tick_all_upd_updaters:
  "tick_all hs (s\<lparr>updaters := u\<rparr>) = (fst (tick_all hs s), (snd (tick_all hs s))\<lparr>updaters := u\<rparr>)"
proof (induction hs arbitrary: s)
  case Nil
  then show ?case by simp
next
  case (Cons h hs)
  obtain r h' s' where up: "update h s = (r, h', s')" by (metis prod.collapse)
  have up': "update h (s\<lparr>updaters := u\<rparr>) = (r, h', s'\<lparr>updaters := u\<rparr>)"
    using update_upd_updaters[where h=h and s=s and u=u] up by simp
  show ?case
  proof (cases r)
    case None
    then show ?thesis using up up' Cons.IH[of s'] by simp
  next
    case (Some e)
    have sw: "s'\<lparr>updaters := u, warned := warned s' @ [hid h']\<rparr> = s'\<lparr>warned := warned s' @ [hid h']\<rparr>\<lparr>updaters := u\<rparr>"
      by simp
    have "tick_all (h # hs) (s\<lparr>updaters := u\<rparr>) =
            tick_all hs (s'\<lparr>updaters := u, warned := warned s' @ [hid h']\<rparr>)"
      using Some up' by simp
    also have "\<dots> = tick_all hs (s'\<lparr>warned := warned s' @ [hid h']\<rparr>\<lparr>updaters := u\<rparr>)"
      by (simp only: sw)
    also note Cons.IH[of "s'\<lparr>warned := warned s' @ [hid h']\<rparr>"]
    finally show ?thesis using Some up by simp
  qed
qed

lemma tick_all_updaters [simp]: "updaters (snd (tick_all hs s)) = updaters s"
proof (induction hs arbitrary: s)
  case Nil
  then show ?case by simp
next
  case (Cons h hs)
  obtain r h' s' where up: "update h s = (r, h', s')" by (metis prod.collapse)
  have u: "updaters s' = updaters s" using update_fields(1)[of h s] up by simp
  show ?case using up u Cons.IH by (cases r) simp_all
qed

lemma tick_all_append:
  "tick_all (xs @ ys) s =
     (fst (tick_all xs s) @ fst (tick_all ys (snd (tick_all xs s))),
      snd (tick_all ys (snd (tick_all xs s))))"
proof (induction xs arbitrary: s)
  case Nil
  then show ?case by simp
next
  case (Cons h hs)
  obtain r h' s' where up: "update h s = (r, h', s')" by (metis prod.collapse)
  show ?case using up Cons.IH by (cases r) simp_all
qed

lemma loop_from_tick_all:
  "i \<le> length (updaters s) \<Longrightarrow>
   loop_from i s =
     (snd (tick_all (rev (take i (updaters s))) s))
       \<lparr>updaters := rev (fst (tick_all (rev (take i (updaters s))) s)) @ drop i (updaters s)\<rparr>"
proof (induction i arbitrary: s)
  case 0
  then show ?case by simp
next
  case (Suc i)
  let ?xs = "updaters s"
  let ?h = "?xs ! i"
  have i: "i < length ?xs" using Suc.prems by simp
  have tk: "rev (take (Suc i) ?xs) = ?h # rev (take i ?xs)"
    using i by (simp add: take_Suc_conv_app_nth)
  obtain r h' s' where up: "update ?h s = (r, h', s')" by (metis prod.collapse)
  have u: "updaters s' = ?xs" using update_fields(1)[of ?h s] up by simp
  show ?case
  proof (cases r)
    case None
    let ?s1 = "s'\<lparr>updaters := ?xs[i := h']\<rparr>"
    have len: "i \<le> length (updaters ?s1)" using i by simp
    have t1: "take i (updaters ?s1) = take i ?xs" by simp
    have d1: "drop i (updaters ?s1) = h' # drop (Suc i) ?xs"
      using i by (simp add: drop_update_cancel Cons_nth_drop_Suc[symmetric] upd_conv_take_nth_drop)
    have "loop_from (Suc i) s = loop_from i ?s1"
      using up None u by simp
    also have "\<dots> = (snd (tick_all (rev (take i ?xs)) ?s1))
       \<lparr>updaters := rev (fst (tick_all (rev (take i ?xs)) ?s1)) @ h' # drop (Suc i) ?xs\<rparr>"
      using Suc.IH[OF len] unfolding t1 d1 .
    also have "\<dots> = (snd (tick_all (rev (take i ?xs)) s'))
       \<lparr>updaters := rev (fst (tick_all (rev (take i ?xs)) s')) @ h' # drop (Suc i) ?xs\<rparr>"
      by (simp add: tick_all_upd_updaters)
    finally show ?thesis
      unfolding tk using up None by simp
  next
    case (Some e)
    let ?s1 = "s'\<lparr>warned := warned s' @ [hid h'], updaters := take i ?xs @ drop (Suc i) ?xs\<rparr>"
    let ?s2 = "s'\<lparr>warned := warned s' @ [hid h']\<rparr>"
    have len: "i \<le> length (updaters ?s1)" using i by simp
    have t1: "take i (updaters ?s1) = take i ?xs" using i by simp
    have d1: "drop i (updaters ?s1) = drop (Suc i) ?xs" using i by simp
    have "loop_from (Suc i) s = loop_from i ?s1"
      using up Some u by simp
    also have "\<dots> = (snd (tick_all (rev (take i ?xs)) ?s1))
       \<lparr>updaters := rev (fst (tick_all (rev (take i ?xs)) ?s1)) @ drop (Suc i) ?xs\<rparr>"
      using Suc.IH[OF len] unfolding t1 d1 .
    also have "\<dots> = (snd (tick_all (rev (take i ?xs)) ?s2))
       \<lparr>updaters := rev (fst (tick_all (rev (take i ?xs)) ?s2)) @ drop (Suc i) ?xs\<rparr>"
      by (simp add: tick_all_upd_updaters)
    finally show ?thesis
      unfolding tk using up Some by simp
  qed
qed

lemma loop_tick_all:
  "loop s = (snd (tick_all (rev (updaters s)) s))\<lparr>updaters := rev (fst (tick_all (rev (updaters s)) s))\<rparr>"
  by (simp add: loop_def loop_from_tick_all)

subsection \<open>The ephemeral ring buffer\<close>

lemma ring_bound_tick_all:
  "length (ephemeral_ring s) \<le> MAX_EPHEMERAL \<Longrightarrow>
   length (ephemeral_ring (snd (tick_all hs s))) \<le> MAX_EPHEMERAL"
proof (induction hs arbitrary: s)
  case Nil
  then show ?case by simp
next
  case (Cons h hs)
  obtain r h' s' where up: "update h s = (r, h', s')" by (metis prod.collapse)
  have b: "length (ephemeral_ring s') \<le> MAX_EPHEMERAL"
    using ring_bound_update[OF Cons.prems, of h] up by simp
  show ?case
  proof (cases r)
    case None
    then show ?thesis using up Cons.IH[OF b] by simp
  next
    case (Some e)
    have "length (ephemeral_ring (s'\<lparr>warned := warned s' @ [hid h']\<rparr>)) \<le> MAX_EPHEMERAL"
      using b by simp
    then show ?thesis using up Some Cons.IH by simp
  qed
qed

lemma ring_bound_loop:
  "length (ephemeral_ring s) \<le> MAX_EPHEMERAL \<Longrightarrow>
   length (ephemeral_ring (loop s)) \<le> MAX_EPHEMERAL"
  by (simp add: loop_tick_all ring_bound_tick_all)

lemma ring_bound_frames:
  "length (ephemeral_ring s) \<le> MAX_EPHEMERAL \<Longrightarrow>
   length (ephemeral_ring (frames fs s)) \<le> MAX_EPHEMERAL"
proof (induction fs arbitrary: s)
  case Nil
  then show ?case by simp
next
  case (Cons f fs)
  have "length (ephemeral_ring ((loop s)\<lparr>world := f (world (loop s))\<rparr>)) \<le> MAX_EPHEMERAL"
    using ring_bound_loop[OF Cons.prems] by simp
  then show ?case using Cons.IH by simp
qed

lemma evict_oldest:
  assumes "inUpdate c" and "length (ephemeral_ring s) = MAX_EPHEMERAL"
  shows "ephemeral_ring (snd (wrappedRegister obj (c, s))) = tl (ephemeral_ring s) @ [obj]
       \<and> objects (world (snd (wrappedRegister obj (c, s)))) =
            remove1 (hd (ephemeral_ring s)) (objects (world s) @ [obj])
       \<and> destroyed (world (snd (wrappedRegister obj (c, s)))) =
            destroyed (world s) @ [body_of s (hd (ephemeral_ring s))]"
proof -
  obtain old rest where r: "ephemeral_ring s = old # rest"
    using assms(2) by (cases "ephemeral_ring s") (auto simp: MAX_EPHEMERAL_def)
  show ?thesis
    using assms r
    by (simp add: wrappedRegister_update_full registerObject_def set_spawned_def set_ephemeral_def
        make_weightless_def unregisterObject_def destroyBody_def body_of_def)
qed

lemma register_250:
  assumes "inUpdate c" and "ephemeral_ring s = []" and "objects (world s) = base"
    and "set base \<inter> set objs = {}" and "distinct objs" and "length objs = 250"
    and "inj_on (body_of s) (set objs)"
  shows "ephemeral_ring (snd (fold wrappedRegister objs (c, s))) = drop 50 objs
       \<and> objects (world (snd (fold wrappedRegister objs (c, s)))) = base @ drop 50 objs
       \<and> destroyed (world (snd (fold wrappedRegister objs (c, s)))) =
            destroyed (world s) @ map (body_of s) (take 50 objs)
       \<and> distinct (map (body_of s) (take 50 objs))
       \<and> body_of s ` set (drop 50 objs) \<inter> set (map (body_of s) (take 50 objs)) = {}"
proof -
  have k: "length ([] @ objs) - MAX_EPHEMERAL = 50"
    using assms(6) by (simp add: MAX_EPHEMERAL_def)
  have m: "fst (fold wrappedRegister objs (c, s)) = c
       \<and> ephemeral_ring (snd (fold wrappedRegister objs (c, s))) = drop (length ([] @ objs) - MAX_EPHEMERAL) ([] @ objs)
       \<and> objects (world (snd (fold wrappedRegister objs (c, s)))) = base @ drop (length ([] @ objs) - MAX_EPHEMERAL) ([] @ objs)
       \<and> destroyed (world (snd (fold wrappedRegister objs (c, s)))) =
           destroyed (world s) @ map (body_of s) (take (length ([] @ objs) - MAX_EPHEMERAL) ([] @ objs))"
    by (rule register_many_update[where r="[]"]) (use assms in simp_all)
  have d: "distinct (map (body_of s) (take 50 objs))"
    using assms(5,7)
    by (metis distinct_map distinct_take inj_on_subset set_take_subset)
  have "distinct (map (body_of s) (take 50 objs @ drop 50 objs))"
    using assms(5,7) by (simp add: distinct_map)
  then have "set (map (body_of s) (take 50 objs)) \<inter> set (map (body_of s) (drop 50 objs)) = {}"
    unfolding map_append distinct_append by blast
  then have i: "body_of s ` set (drop 50 objs) \<inter> set (map (body_of s) (take 50 objs)) = {}"
    by auto
  show ?thesis using m d i unfolding k by simp
qed

subsection \<open>A frame, handle by handle\<close>

lemma update_invoked_count:
  "count_list (invoked (snd (snd (update h s)))) k =
     count_list (invoked s) k + (if \<not> all_roots_inactive h (world s) \<and> hid h = k then 1 else 0)"
  by (simp add: update_invoked)

lemma tick_all_ticked: "ticked (snd (tick_all hs s)) = ticked s @ map hid hs"
proof (induction hs arbitrary: s)
  case Nil
  then show ?case by simp
next
  case (Cons h hs)
  obtain r h' s' where up: "update h s = (r, h', s')" by (metis prod.collapse)
  have t: "ticked s' = ticked s @ [hid h]" using update_fields(4)[of h s] up by simp
  show ?case using up t Cons.IH by (cases r) simp_all
qed

lemma loop_ticked: "ticked (loop s) = ticked s @ rev (map hid (updaters s))"
  by (simp add: loop_tick_all tick_all_ticked rev_map)

lemma tick_all_hids: "set (map hid (fst (tick_all hs s))) \<subseteq> set (map hid hs)"
proof (induction hs arbitrary: s)
  case Nil
  then show ?case by simp
next
  case (Cons h hs)
  obtain r h' s' where up: "update h s = (r, h', s')" by (metis prod.collapse)
  have hh: "hid h' = hid h" using update_fields(5)[of h s] up by simp
  show ?case
  proof (cases r)
    case None
    then show ?thesis using up hh Cons.IH[of s'] by auto
  next
    case (Some e)
    then show ?thesis using up Cons.IH[of "s'\<lparr>warned := warned s' @ [hid h']\<rparr>"] by auto
  qed
qed

lemma tick_all_distinct: "distinct (map hid hs) \<Longrightarrow> distinct (map hid (fst (tick_all hs s)))"
proof (induction hs arbitrary: s)
  case Nil
  then show ?case by simp
next
  case (Cons h hs)
  obtain r h' s' where up: "update h s = (r, h', s')" by (metis prod.collapse)
  have hh: "hid h' = hid h" using update_fields(5)[of h s] up by simp
  have d: "distinct (map hid hs)" and n: "hid h \<notin> set (map hid hs)" using Cons.prems by auto
  show ?case
  proof (cases r)
    case None
    have "hid h \<notin> set (map hid (fst (tick_all hs s')))" using n tick_all_hids[of hs s'] by blast
    then show ?thesis using None up hh Cons.IH[OF d, of s'] by simp
  next
    case (Some e)
    then show ?thesis using up Cons.IH[OF d] by simp
  qed
qed

lemma loop_hids: "set (map hid (updaters (loop s))) \<subseteq> set (map hid (updaters s))"
  using tick_all_hids[of "rev (updaters s)" s] by (simp add: loop_tick_all)

lemma loop_distinct: "distinct (map hid (updaters s)) \<Longrightarrow> distinct (map hid (updaters (loop s)))"
  using tick_all_distinct[of "rev (updaters s)" s]
  by (simp add: loop_tick_all rev_map[symmetric] del: rev_map)

text \<open>A handle that is not in the pass is neither invoked nor warned about.\<close>

lemma tick_all_absent:
  "k \<notin> set (map hid hs) \<Longrightarrow>
   count_list (invoked (snd (tick_all hs s))) k = count_list (invoked s) k
   \<and> count_list (warned (snd (tick_all hs s))) k = count_list (warned s) k"
proof (induction hs arbitrary: s)
  case Nil
  then show ?case by simp
next
  case (Cons h hs)
  obtain r h' s' where up: "update h s = (r, h', s')" by (metis prod.collapse)
  have hh: "hid h' = hid h" using update_fields(5)[of h s] up by simp
  have w: "warned s' = warned s" using update_fields(3)[of h s] up by simp
  have i: "count_list (invoked s') k = count_list (invoked s) k"
    using update_invoked_count[of h s k] up Cons.prems by simp
  have k: "k \<notin> set (map hid hs)" "k \<noteq> hid h" using Cons.prems by auto
  show ?case
  proof (cases r)
    case None
    then show ?thesis using up i w Cons.IH[OF k(1), of s'] by simp
  next
    case (Some e)
    then show ?thesis
      using up i w hh k(2) Cons.IH[OF k(1), of "s'\<lparr>warned := warned s' @ [hid h']\<rparr>"] by simp
  qed
qed

text \<open>
  The fate of one handle \<open>h\<close> in a pass, \<open>xs\<close> being ticked before it and \<open>ys\<close> after:
  it is decided by the world at its turn and by its own script alone.
\<close>

lemma tick_all_handle:
  assumes d: "distinct (map hid (xs @ h # ys))"
  shows "(all_roots_inactive h (world (snd (tick_all xs s))) \<longrightarrow>
            h\<lparr>dead := True\<rparr> \<in> set (fst (tick_all (xs @ h # ys) s))
          \<and> count_list (invoked (snd (tick_all (xs @ h # ys) s))) (hid h) = count_list (invoked s) (hid h)
          \<and> count_list (warned (snd (tick_all (xs @ h # ys) s))) (hid h) = count_list (warned s) (hid h))
       \<and> (\<not> all_roots_inactive h (world (snd (tick_all xs s))) \<and> throws (origUpdate h (calls h)) \<longrightarrow>
            hid h \<notin> set (map hid (fst (tick_all (xs @ h # ys) s)))
          \<and> count_list (invoked (snd (tick_all (xs @ h # ys) s))) (hid h) = Suc (count_list (invoked s) (hid h))
          \<and> count_list (warned (snd (tick_all (xs @ h # ys) s))) (hid h) = Suc (count_list (warned s) (hid h)))
       \<and> (\<not> all_roots_inactive h (world (snd (tick_all xs s))) \<and> \<not> throws (origUpdate h (calls h)) \<longrightarrow>
            h\<lparr>inUpdate := False, calls := Suc (calls h)\<rparr> \<in> set (fst (tick_all (xs @ h # ys) s))
          \<and> count_list (invoked (snd (tick_all (xs @ h # ys) s))) (hid h) = Suc (count_list (invoked s) (hid h))
          \<and> count_list (warned (snd (tick_all (xs @ h # ys) s))) (hid h) = count_list (warned s) (hid h))"
proof -
  let ?k = "hid h"
  let ?s1 = "snd (tick_all xs s)"
  have kx: "?k \<notin> set (map hid xs)" and ky: "?k \<notin> set (map hid ys)" using d by auto
  have c1: "count_list (invoked ?s1) ?k = count_list (invoked s) ?k"
           "count_list (warned ?s1) ?k = count_list (warned s) ?k"
    using tick_all_absent[OF kx, of s] by simp_all
  have sx: "?k \<notin> set (map hid (fst (tick_all xs s)))"
    using kx tick_all_hids[of xs s] by blast
  have sy: "\<And>t. ?k \<notin> set (map hid (fst (tick_all ys t)))"
    using ky tick_all_hids[of ys] by blast
  have split: "tick_all (xs @ h # ys) s =
     (fst (tick_all xs s) @ fst (tick_all (h # ys) ?s1), snd (tick_all (h # ys) ?s1))"
    by (rule tick_all_append)
  show ?thesis
  proof (cases "all_roots_inactive h (world ?s1)")
    case True
    have up: "update h ?s1 = (None, h\<lparr>dead := True\<rparr>, ?s1\<lparr>ticked := ticked ?s1 @ [hid h]\<rparr>)"
      using True by (rule update_skip)
    let ?s2 = "?s1\<lparr>ticked := ticked ?s1 @ [hid h]\<rparr>"
    have t: "tick_all (h # ys) ?s1 = (h\<lparr>dead := True\<rparr> # fst (tick_all ys ?s2), snd (tick_all ys ?s2))"
      using up by simp
    have c2: "count_list (invoked (snd (tick_all ys ?s2))) ?k = count_list (invoked ?s2) ?k"
             "count_list (warned (snd (tick_all ys ?s2))) ?k = count_list (warned ?s2) ?k"
      using tick_all_absent[OF ky, of ?s2] by simp_all
    show ?thesis using True c1 c2 unfolding split t by simp
  next
    case False
    obtain r h' s2 where up: "update h ?s1 = (r, h', s2)" by (metis prod.collapse)
    have i2: "invoked s2 = invoked ?s1 @ [?k]"
      using update_invoked[of h ?s1] False up by simp
    have w2: "warned s2 = warned ?s1" using update_fields(3)[of h ?s1] up by simp
    have hh: "hid h' = ?k" using update_fields(5)[of h ?s1] up by simp
    have i3: "count_list (invoked s2) ?k = Suc (count_list (invoked s) ?k)"
      using i2 c1 by simp
    show ?thesis
    proof (cases "throws (origUpdate h (calls h))")
      case True
      then obtain e where r: "r = Some e"
        using update_throws_iff[of h ?s1] False up by auto
      let ?s3 = "s2\<lparr>warned := warned s2 @ [?k]\<rparr>"
      have t: "tick_all (h # ys) ?s1 = tick_all ys ?s3"
        using up r hh by simp
      have c2: "count_list (invoked (snd (tick_all ys ?s3))) ?k = count_list (invoked ?s3) ?k"
               "count_list (warned (snd (tick_all ys ?s3))) ?k = count_list (warned ?s3) ?k"
        using tick_all_absent[OF ky, of ?s3] by simp_all
      have w3: "count_list (warned ?s3) ?k = Suc (count_list (warned s) ?k)"
        using w2 c1 by simp
      show ?thesis using False True sx sy c2 i3 w3 unfolding split t by simp
    next
      case nt: False
      have r: "r = None"
        using update_throws_iff[of h ?s1] nt up by auto
      have h': "h' = h\<lparr>inUpdate := False, calls := Suc (calls h)\<rparr>"
        using update_run[OF False] nt up by simp
      have t: "tick_all (h # ys) ?s1 =
        (h\<lparr>inUpdate := False, calls := Suc (calls h)\<rparr> # fst (tick_all ys s2), snd (tick_all ys s2))"
        using up r h' by simp
      have c2: "count_list (invoked (snd (tick_all ys s2))) ?k = count_list (invoked s2) ?k"
               "count_list (warned (snd (tick_all ys s2))) ?k = count_list (warned s2) ?k"
        using tick_all_absent[OF ky, of s2] by simp_all
      have w3: "count_list (warned s2) ?k = count_list (warned s) ?k"
        using w2 c1 by simp
      show ?thesis using False nt c2 i3 w3 unfolding split t by simp
    qed
  qed
qed

lemma loop_handle:
  assumes d: "distinct (map hid (updaters s))" and u: "updaters s = before @ h # after"
  shows "(all_roots_inactive h (world (at_turn after s)) \<longrightarrow>
            h\<lparr>dead := True\<rparr> \<in> set (updaters (loop s))
          \<and> count_list (invoked (loop s)) (hid h) = count_list (invoked s) (hid h)
          \<and> count_list (warned (loop s)) (hid h) = count_list (warned s) (hid h))
       \<and> (\<not> all_roots_inactive h (world (at_turn after s)) \<and> throws (origUpdate h (calls h)) \<longrightarrow>
            hid h \<notin> set (map hid (updaters (loop s)))
          \<and> count_list (invoked (loop s)) (hid h) = Suc (count_list (invoked s) (hid h))
          \<and> count_list (warned (loop s)) (hid h) = Suc (count_list (warned s) (hid h)))
       \<and> (\<not> all_roots_inactive h (world (at_turn after s)) \<and> \<not> throws (origUpdate h (calls h)) \<longrightarrow>
            h\<lparr>inUpdate := False, calls := Suc (calls h)\<rparr> \<in> set (updaters (loop s))
          \<and> count_list (invoked (loop s)) (hid h) = Suc (count_list (invoked s) (hid h))
          \<and> count_list (warned (loop s)) (hid h) = count_list (warned s) (hid h))"
proof -
  have r: "rev (updaters s) = rev after @ h # rev before" using u by simp
  have "distinct (map hid (rev (updaters s)))"
    using d by (simp add: rev_map[symmetric] del: rev_map)
  then have d': "distinct (map hid (rev after @ h # rev before))" unfolding r .
  show ?thesis
    using tick_all_handle[OF d', of s]
    unfolding at_turn_def loop_tick_all r by simp
qed

lemma loop_absent:
  assumes "k \<notin> set (map hid (updaters s))"
  shows "k \<notin> set (map hid (updaters (loop s)))
       \<and> count_list (ticked (loop s)) k = count_list (ticked s) k
       \<and> count_list (invoked (loop s)) k = count_list (invoked s) k
       \<and> count_list (warned (loop s)) k = count_list (warned s) k"
proof -
  have k: "k \<notin> set (map hid (rev (updaters s)))" using assms by simp
  have "count_list (map hid (updaters s)) k = 0" using assms by (simp add: count_list_0_iff)
  then have "count_list (rev (map hid (updaters s))) k = 0" by simp
  then show ?thesis
    using assms loop_hids[of s] tick_all_absent[OF k, of s]
    by (auto simp: loop_ticked) (simp_all add: loop_tick_all)
qed

lemma frames_absent:
  assumes "k \<notin> set (map hid (updaters s))"
  shows "k \<notin> set (map hid (updaters (frames fs s)))
       \<and> count_list (ticked (frames fs s)) k = count_list (ticked s) k
       \<and> count_list (invoked (frames fs s)) k = count_list (invoked s) k
       \<and> count_list (warned (frames fs s)) k = count_list (warned s) k"
  using assms
proof (induction fs arbitrary: s)
  case Nil
  then show ?case by simp
next
  case (Cons f fs)
  let ?s1 = "(loop s)\<lparr>world := f (world (loop s))\<rparr>"
  note l = loop_absent[OF Cons.prems]
  have k1: "k \<notin> set (map hid (updaters ?s1))" using l by simp
  show ?case using Cons.IH[OF k1] l by simp
qed

lemma frames_distinct:
  "distinct (map hid (updaters s)) \<Longrightarrow> distinct (map hid (updaters (frames fs s)))"
proof (induction fs arbitrary: s)
  case Nil
  then show ?case by simp
next
  case (Cons f fs)
  have "distinct (map hid (updaters ((loop s)\<lparr>world := f (world (loop s))\<rparr>)))"
    using loop_distinct[OF Cons.prems] by simp
  then show ?case using Cons.IH by simp
qed

lemma frames_hids: "set (map hid (updaters (frames fs s))) \<subseteq> set (map hid (updaters s))"
proof (induction fs arbitrary: s)
  case Nil
  then show ?case by simp
next
  case (Cons f fs)
  have "set (map hid (updaters (frames fs ((loop s)\<lparr>world := f (world (loop s))\<rparr>))))
          \<subseteq> set (map hid (updaters ((loop s)\<lparr>world := f (world (loop s))\<rparr>)))"
    by (rule Cons.IH)
  then show ?case using loop_hids[of s] by auto
qed

subsection \<open>One handle across frames\<close>

lemma frame_step:
  fixes f :: "world \<Rightarrow> world"
  assumes d: "distinct (map hid (updaters s))" and h: "h \<in> set (updaters s)"
  defines "s1 \<equiv> (loop s)\<lparr>world := f (world (loop s))\<rparr>"
  shows "(rootBodies h \<noteq> [] \<and> h\<lparr>dead := True\<rparr> \<in> set (updaters s1)
          \<and> count_list (invoked s1) (hid h) = count_list (invoked s) (hid h)
          \<and> count_list (warned s1) (hid h) = count_list (warned s) (hid h))
       \<or> (throws (origUpdate h (calls h)) \<and> hid h \<notin> set (map hid (updaters s1))
          \<and> count_list (invoked s1) (hid h) = Suc (count_list (invoked s) (hid h))
          \<and> count_list (warned s1) (hid h) = Suc (count_list (warned s) (hid h)))
       \<or> (\<not> throws (origUpdate h (calls h))
          \<and> h\<lparr>inUpdate := False, calls := Suc (calls h)\<rparr> \<in> set (updaters s1)
          \<and> count_list (invoked s1) (hid h) = Suc (count_list (invoked s) (hid h))
          \<and> count_list (warned s1) (hid h) = count_list (warned s) (hid h))"
proof -
  obtain before after where u: "updaters s = before @ h # after"
    using h by (meson split_list)
  note l = loop_handle[OF d u]
  have r: "all_roots_inactive h (world (at_turn after s)) \<Longrightarrow> rootBodies h \<noteq> []"
    by (simp add: all_roots_inactive_def)
  show ?thesis
    unfolding s1_def using l r
    by (cases "all_roots_inactive h (world (at_turn after s))";
        cases "throws (origUpdate h (calls h))") simp_all
qed

lemma first_throw:
  assumes "distinct (map hid (updaters s))" and "h \<in> set (updaters s)"
    and "\<forall>i<n. \<not> throws (origUpdate h i)" and "throws (origUpdate h n)" and "calls h \<le> n"
  shows "\<exists>m. count_list (invoked (frames fs s)) (hid h) = count_list (invoked s) (hid h) + m
          \<and> ((\<exists>h' \<in> set (updaters (frames fs s)).
                 hid h' = hid h \<and> origUpdate h' = origUpdate h \<and> calls h' = calls h + m \<and> calls h' \<le> n
                 \<and> count_list (warned (frames fs s)) (hid h) = count_list (warned s) (hid h))
             \<or> (hid h \<notin> set (map hid (updaters (frames fs s))) \<and> calls h + m = Suc n
                 \<and> count_list (warned (frames fs s)) (hid h) = Suc (count_list (warned s) (hid h))))"
  using assms
proof (induction fs arbitrary: s h)
  case Nil
  show ?case
    by (rule exI[of _ 0]) (use Nil in auto)
next
  case (Cons f fs)
  let ?s1 = "(loop s)\<lparr>world := f (world (loop s))\<rparr>"
  let ?k = "hid h"
  have d1: "distinct (map hid (updaters ?s1))" using loop_distinct[OF Cons.prems(1)] by simp
  have fr: "frames (f # fs) s = frames fs ?s1" by simp
  consider
      (skip) "h\<lparr>dead := True\<rparr> \<in> set (updaters ?s1)"
             "count_list (invoked ?s1) ?k = count_list (invoked s) ?k"
             "count_list (warned ?s1) ?k = count_list (warned s) ?k"
    | (thrown) "throws (origUpdate h (calls h))" "?k \<notin> set (map hid (updaters ?s1))"
             "count_list (invoked ?s1) ?k = Suc (count_list (invoked s) ?k)"
             "count_list (warned ?s1) ?k = Suc (count_list (warned s) ?k)"
    | (ran) "\<not> throws (origUpdate h (calls h))"
             "h\<lparr>inUpdate := False, calls := Suc (calls h)\<rparr> \<in> set (updaters ?s1)"
             "count_list (invoked ?s1) ?k = Suc (count_list (invoked s) ?k)"
             "count_list (warned ?s1) ?k = count_list (warned s) ?k"
    using frame_step[OF Cons.prems(1) Cons.prems(2), of f] by blast
  then show ?case
  proof cases
    case skip
    let ?h1 = "h\<lparr>dead := True\<rparr>"
    have "\<exists>m. count_list (invoked (frames fs ?s1)) (hid ?h1) = count_list (invoked ?s1) (hid ?h1) + m
          \<and> ((\<exists>h' \<in> set (updaters (frames fs ?s1)).
                 hid h' = hid ?h1 \<and> origUpdate h' = origUpdate ?h1 \<and> calls h' = calls ?h1 + m \<and> calls h' \<le> n
                 \<and> count_list (warned (frames fs ?s1)) (hid ?h1) = count_list (warned ?s1) (hid ?h1))
             \<or> (hid ?h1 \<notin> set (map hid (updaters (frames fs ?s1))) \<and> calls ?h1 + m = Suc n
                 \<and> count_list (warned (frames fs ?s1)) (hid ?h1) = Suc (count_list (warned ?s1) (hid ?h1))))"
      by (rule Cons.IH[OF d1 skip(1)]) (use Cons.prems in simp_all)
    then obtain m where m: "count_list (invoked (frames fs ?s1)) ?k = count_list (invoked ?s1) ?k + m"
      "(\<exists>h' \<in> set (updaters (frames fs ?s1)).
                 hid h' = ?k \<and> origUpdate h' = origUpdate h \<and> calls h' = calls h + m \<and> calls h' \<le> n
                 \<and> count_list (warned (frames fs ?s1)) ?k = count_list (warned ?s1) ?k)
             \<or> (?k \<notin> set (map hid (updaters (frames fs ?s1))) \<and> calls h + m = Suc n
                 \<and> count_list (warned (frames fs ?s1)) ?k = Suc (count_list (warned ?s1) ?k))"
      by auto
    show ?thesis
      unfolding fr by (rule exI[of _ m]) (use m skip in simp)
  next
    case thrown
    have cn: "calls h = n"
      using thrown(1) Cons.prems(3,5) by (metis le_neq_implies_less)
    note a = frames_absent[OF thrown(2), of fs]
    show ?thesis
      unfolding fr by (rule exI[of _ 1]) (use a thrown cn in simp)
  next
    case ran
    let ?h1 = "h\<lparr>inUpdate := False, calls := Suc (calls h)\<rparr>"
    have lt: "calls h < n"
      using ran(1) Cons.prems(4,5) by (metis le_neq_implies_less)
    have "\<exists>m. count_list (invoked (frames fs ?s1)) (hid ?h1) = count_list (invoked ?s1) (hid ?h1) + m
          \<and> ((\<exists>h' \<in> set (updaters (frames fs ?s1)).
                 hid h' = hid ?h1 \<and> origUpdate h' = origUpdate ?h1 \<and> calls h' = calls ?h1 + m \<and> calls h' \<le> n
                 \<and> count_list (warned (frames fs ?s1)) (hid ?h1) = count_list (warned ?s1) (hid ?h1))
             \<or> (hid ?h1 \<notin> set (map hid (updaters (frames fs ?s1))) \<and> calls ?h1 + m = Suc n
                 \<and> count_list (warned (frames fs ?s1)) (hid ?h1) = Suc (count_list (warned ?s1) (hid ?h1))))"
      by (rule Cons.IH[OF d1 ran(2)]) (use Cons.prems lt in simp_all)
    then obtain m where m: "count_list (invoked (frames fs ?s1)) ?k = count_list (invoked ?s1) ?k + m"
      "(\<exists>h' \<in> set (updaters (frames fs ?s1)).
                 hid h' = ?k \<and> origUpdate h' = origUpdate h \<and> calls h' = Suc (calls h) + m \<and> calls h' \<le> n
                 \<and> count_list (warned (frames fs ?s1)) ?k = count_list (warned ?s1) ?k)
             \<or> (?k \<notin> set (map hid (updaters (frames fs ?s1))) \<and> Suc (calls h) + m = Suc n
                 \<and> count_list (warned (frames fs ?s1)) ?k = Suc (count_list (warned ?s1) ?k))"
      by auto
    show ?thesis
      unfolding fr by (rule exI[of _ "Suc m"]) (use m ran in simp)
  qed
qed

lemma never_dead:
  assumes "distinct (map hid (updaters s))" and "h \<in> set (updaters s)"
    and "rootBodies h = []" and "\<forall>i. \<not> throws (origUpdate h i)"
  shows "\<exists>h' \<in> set (updaters (frames fs s)).
           hid h' = hid h \<and> origUpdate h' = origUpdate h \<and> rootBodies h' = [] \<and> dead h' = dead h
         \<and> calls h' = calls h + length fs
         \<and> count_list (invoked (frames fs s)) (hid h) = count_list (invoked s) (hid h) + length fs"
  using assms
proof (induction fs arbitrary: s h)
  case Nil
  then show ?case by auto
next
  case (Cons f fs)
  let ?s1 = "(loop s)\<lparr>world := f (world (loop s))\<rparr>"
  let ?h1 = "h\<lparr>inUpdate := False, calls := Suc (calls h)\<rparr>"
  have d1: "distinct (map hid (updaters ?s1))" using loop_distinct[OF Cons.prems(1)] by simp
  have ran: "?h1 \<in> set (updaters ?s1)"
       "count_list (invoked ?s1) (hid h) = Suc (count_list (invoked s) (hid h))"
    using frame_step[OF Cons.prems(1) Cons.prems(2), of f] Cons.prems(3,4) by auto
  have "\<exists>h' \<in> set (updaters (frames fs ?s1)).
           hid h' = hid ?h1 \<and> origUpdate h' = origUpdate ?h1 \<and> rootBodies h' = [] \<and> dead h' = dead ?h1
         \<and> calls h' = calls ?h1 + length fs
         \<and> count_list (invoked (frames fs ?s1)) (hid ?h1) = count_list (invoked ?s1) (hid ?h1) + length fs"
    by (rule Cons.IH[OF d1 ran(1)]) (use Cons.prems in simp_all)
  then show ?case using ran(2) by auto
qed

lemmas scenario_defs = two_behaviours_def rain_sim_def engine_def execute_def createExecutor_def
  fresh_world_def plain_object_def plain_body_def deactivate_def

lemmas run_defs = update_def loop_def wrappedRegister_def registerObject_def unregisterObject_def
  destroyBody_def set_spawned_def set_ephemeral_def make_weightless_def MAX_EPHEMERAL_def Let_def

subsection \<open>What execute adds\<close>

lemma run_actions_no_register:
  "\<forall>obj. Register obj \<notin> set acts \<Longrightarrow> fst (snd (run_actions acts cs)) = fst cs"
  by (induction acts cs rule: run_actions.induct) auto

lemma execute_updaters:
  "updaters (snd (execute nf code x y s)) = updaters s
   \<or> (\<exists>h. updaters (snd (execute nf code x y s)) = updaters s @ [h] \<and> hid h = created s)"
proof (cases "nf code")
  case (Inl m)
  then show ?thesis by (simp add: execute_def)
next
  case (Inr fn)
  obtain r c s' where run:
    "run_actions (setup_phase (fn x y)) (\<lparr>inUpdate = False, rootBodies = []\<rparr>, s) = (r, c, s')"
    by (metis prod.collapse)
  have u: "updaters s' = updaters s" and c: "created s' = created s"
    using run_actions_fields(1,2)[of "setup_phase (fn x y)" "(\<lparr>inUpdate = False, rootBodies = []\<rparr>, s)"] run
    by simp_all
  show ?thesis
    using Inr run u c by (simp add: execute_def split: option.splits)
qed

lemma execute_no_roots:
  assumes "nf code = Inr fn" and "\<forall>obj. Register obj \<notin> set (setup_phase (fn x y))"
    and "\<not> throws (setup_phase (fn x y))" and "returned_update (fn x y) = Some u"
  shows "\<exists>h. updaters (snd (execute nf code x y s)) = updaters s @ [h]
           \<and> rootBodies h = [] \<and> \<not> dead h \<and> origUpdate h = u \<and> hid h = created s"
proof -
  let ?c0 = "\<lparr>inUpdate = False, rootBodies = []\<rparr>"
  obtain r c s' where run: "run_actions (setup_phase (fn x y)) (?c0, s) = (r, c, s')"
    by (metis prod.collapse)
  have r: "r = None"
    using run_actions_throws[of "setup_phase (fn x y)" "(?c0, s)"] assms(3) run by simp
  have c: "c = ?c0"
    using run_actions_no_register[OF assms(2), of "(?c0, s)"] run by simp
  have u: "updaters s' = updaters s" and cr: "created s' = created s"
    using run_actions_fields(1,2)[of "setup_phase (fn x y)" "(?c0, s)"] run by simp_all
  show ?thesis
    using assms(1,4) run r c u cr by (simp add: execute_def)
qed

subsection \<open>Tick order\<close>

lemma distinct_count_one:
  "distinct (map f xs) \<Longrightarrow> x \<in> set xs \<Longrightarrow> count_list (map f xs) (f x) = 1"
proof (induction xs)
  case Nil
  then show ?case by simp
next
  case (Cons a xs)
  show ?case
  proof (cases "x = a")
    case True
    have "f a \<notin> set (map f xs)" using Cons.prems(1) by simp
    then have "count_list (map f xs) (f a) = 0" by (rule count_notin)
    then show ?thesis using True by simp
  next
    case False
    then have "x \<in> set xs" using Cons.prems(2) by simp
    moreover have "f a \<noteq> f x" using Cons.prems(1) \<open>x \<in> set xs\<close> by auto
    moreover have "distinct (map f xs)" using Cons.prems(1) by simp
    ultimately show ?thesis using Cons.IH by simp
  qed
qed

lemma loop_ticked_once:
  assumes "distinct (map hid (updaters s))" and "h \<in> set (updaters s)"
  shows "count_list (ticked (loop s)) (hid h) = Suc (count_list (ticked s) (hid h))"
proof -
  have "count_list (map hid (updaters s)) (hid h) = 1"
    using assms by (rule distinct_count_one)
  then show ?thesis by (simp add: loop_ticked)
qed

text \<open>
  C8, as stated: on every frame the behaviours are ticked in registration order. The loop
  runs its counter from the last index down to 0, so of two behaviours the one registered
  second is ticked first.
\<close>

theorem tick_order_counterexample:
  "map hid (updaters two_behaviours) = [0, 1] \<and> ticked (loop two_behaviours) = [1, 0]"
  by (simp add: scenario_defs run_defs)

text \<open>
  C8, amended: on every frame the \<^verbatim>\<open>update\<close> of each entry of \<open>updaters\<close> is called
  exactly once, in reverse registration order: \<open>execute\<close> appends a new handle at the
  end of the array (or leaves the array as it is), and a frame calls the handles from the
  last entry to the first; with distinct handles each one is called once per frame. The
  handles are distinct in every state the application reaches (\<open>reachable_ok\<close> below).
\<close>

theorem tick_order:
  "ticked (loop s) = ticked s @ rev (map hid (updaters s))
 \<and> (distinct (map hid (updaters s)) \<longrightarrow>
      (\<forall>h \<in> set (updaters s). count_list (ticked (loop s)) (hid h) = Suc (count_list (ticked s) (hid h))))
 \<and> (updaters (snd (execute nf code x y s)) = updaters s
    \<or> (\<exists>h. updaters (snd (execute nf code x y s)) = updaters s @ [h] \<and> hid h = created s))"
  using loop_ticked[of s] loop_ticked_once[of s] execute_updaters[of nf code x y s] by blast

theorem tick_order_witness:
  "ticked (loop two_behaviours) = ticked two_behaviours @ rev [0, 1]
 \<and> count_list (ticked (loop two_behaviours)) 0 = Suc (count_list (ticked two_behaviours) 0)
 \<and> count_list (ticked (loop two_behaviours)) 1 = Suc (count_list (ticked two_behaviours) 1)"
proof -
  have u: "map hid (updaters two_behaviours) = [0, 1]"
    by (simp add: scenario_defs)
  have d: "distinct (map hid (updaters two_behaviours))"
    unfolding u by simp
  have m: "\<exists>h \<in> set (updaters two_behaviours). hid h = 0" "\<exists>h \<in> set (updaters two_behaviours). hid h = 1"
    by (simp_all add: scenario_defs)
  show ?thesis
    using tick_order[of two_behaviours engine "Str ''still''" 0 0] d m unfolding u by metis
qed

subsection \<open>Fault isolation\<close>

lemma thrower_dropped:
  assumes d: "distinct (map hid (updaters s))" and u: "updaters s = before @ h # after"
    and t: "fst (update h (at_turn after s)) \<noteq> None"
  shows "hid h \<notin> set (map hid (updaters (loop s)))
       \<and> count_list (warned (loop s)) (hid h) = Suc (count_list (warned s) (hid h))
       \<and> count_list (ticked (frames (f # fs) s)) (hid h) = Suc (count_list (ticked s) (hid h))
       \<and> count_list (invoked (frames (f # fs) s)) (hid h) = Suc (count_list (invoked s) (hid h))
       \<and> hid h \<notin> set (map hid (updaters (frames (f # fs) s)))"
proof -
  let ?s1 = "(loop s)\<lparr>world := f (world (loop s))\<rparr>"
  have c: "\<not> all_roots_inactive h (world (at_turn after s)) \<and> throws (origUpdate h (calls h))"
    using t update_throws_iff[of h "at_turn after s"] by simp
  have l: "hid h \<notin> set (map hid (updaters (loop s)))"
          "count_list (invoked (loop s)) (hid h) = Suc (count_list (invoked s) (hid h))"
          "count_list (warned (loop s)) (hid h) = Suc (count_list (warned s) (hid h))"
    using loop_handle[OF d u] c by simp_all
  have h: "h \<in> set (updaters s)" using u by simp
  have tk: "count_list (ticked (loop s)) (hid h) = Suc (count_list (ticked s) (hid h))"
    using d h by (rule loop_ticked_once)
  have a: "hid h \<notin> set (map hid (updaters ?s1))" using l(1) by simp
  note fa = frames_absent[OF a, of fs]
  show ?thesis using l tk fa by simp
qed

lemma only_throwers_dropped:
  assumes d: "distinct (map hid (updaters s))" and g: "g \<in> set (updaters s)"
    and gone: "hid g \<notin> set (map hid (updaters (loop s)))"
  shows "throws (origUpdate g (calls g))
       \<and> count_list (warned (loop s)) (hid g) = Suc (count_list (warned s) (hid g))"
proof -
  have a: "g\<lparr>dead := True\<rparr> \<notin> set (updaters (loop s))"
  proof
    assume "g\<lparr>dead := True\<rparr> \<in> set (updaters (loop s))"
    then have "hid (g\<lparr>dead := True\<rparr>) \<in> hid ` set (updaters (loop s))" by (rule imageI)
    then show False using gone by simp
  qed
  have b: "g\<lparr>inUpdate := False, calls := Suc (calls g)\<rparr> \<notin> set (updaters (loop s))"
  proof
    assume "g\<lparr>inUpdate := False, calls := Suc (calls g)\<rparr> \<in> set (updaters (loop s))"
    then have "hid (g\<lparr>inUpdate := False, calls := Suc (calls g)\<rparr>) \<in> hid ` set (updaters (loop s))"
      by (rule imageI)
    then show False using gone by simp
  qed
  show ?thesis
    using frame_step[OF d g, of "\<lambda>w. w"] a b by auto
qed

text \<open>
  C2: fault isolation. Every entry of \<open>updaters\<close> has its \<^verbatim>\<open>update\<close> called on a frame,
  whatever the others do. A handle \<open>h\<close> whose \<^verbatim>\<open>update\<close> throws when its turn comes is
  removed by the loop: the exception goes to \<^verbatim>\<open>console.warn\<close> only (the loop returns the
  next state, nothing else, and a frame leaves the overlay as it is), and over this frame and any number of later frames, with any
  changes of the world in between, \<open>h\<close> is ticked and invoked exactly once more, namely
  on this frame. A handle is removed by a frame only if its own script throws. A behaviour
  whose generated update throws at its invocation number \<open>n + 1\<close> and not before (third
  tick: \<open>n = 2\<close>) is, after any frames, either still in the array with every invocation so
  far successful and at most \<open>n\<close> of them, or gone after exactly \<open>n\<close> successful
  invocations and the throwing one, with one warning. The handles are distinct in every
  state the application reaches (\<open>reachable_ok\<close> below).
\<close>

theorem fault_isolation:
  "ticked (loop s) = ticked s @ rev (map hid (updaters s))
 \<and> overlay (step cfg (Frame rest) a) = overlay a
 \<and> (distinct (map hid (updaters s)) \<and> updaters s = before @ h # after
      \<and> fst (update h (at_turn after s)) \<noteq> None \<longrightarrow>
      hid h \<notin> set (map hid (updaters (loop s)))
    \<and> count_list (warned (loop s)) (hid h) = Suc (count_list (warned s) (hid h))
    \<and> count_list (ticked (frames (f # fs) s)) (hid h) = Suc (count_list (ticked s) (hid h))
    \<and> count_list (invoked (frames (f # fs) s)) (hid h) = Suc (count_list (invoked s) (hid h))
    \<and> hid h \<notin> set (map hid (updaters (frames (f # fs) s))))
 \<and> (distinct (map hid (updaters s)) \<and> g \<in> set (updaters s)
      \<and> hid g \<notin> set (map hid (updaters (loop s))) \<longrightarrow>
      throws (origUpdate g (calls g))
    \<and> count_list (warned (loop s)) (hid g) = Suc (count_list (warned s) (hid g)))
 \<and> (distinct (map hid (updaters s)) \<and> g \<in> set (updaters s)
      \<and> (\<forall>i<n. \<not> throws (origUpdate g i)) \<and> throws (origUpdate g n) \<and> calls g \<le> n \<longrightarrow>
      (\<exists>m. count_list (invoked (frames fs s)) (hid g) = count_list (invoked s) (hid g) + m
          \<and> ((\<exists>h' \<in> set (updaters (frames fs s)).
                 hid h' = hid g \<and> origUpdate h' = origUpdate g \<and> calls h' = calls g + m \<and> calls h' \<le> n
                 \<and> count_list (warned (frames fs s)) (hid g) = count_list (warned s) (hid g))
             \<or> (hid g \<notin> set (map hid (updaters (frames fs s))) \<and> calls g + m = Suc n
                 \<and> count_list (warned (frames fs s)) (hid g) = Suc (count_list (warned s) (hid g))))))"
proof (intro conjI impI)
  show "ticked (loop s) = ticked s @ rev (map hid (updaters s))" by (rule loop_ticked)
next
  show "overlay (step cfg (Frame rest) a) = overlay a" by simp
next
  assume a: "distinct (map hid (updaters s)) \<and> updaters s = before @ h # after
      \<and> fst (update h (at_turn after s)) \<noteq> None"
  have r: "hid h \<notin> set (map hid (updaters (loop s)))
       \<and> count_list (warned (loop s)) (hid h) = Suc (count_list (warned s) (hid h))
       \<and> count_list (ticked (frames (f # fs) s)) (hid h) = Suc (count_list (ticked s) (hid h))
       \<and> count_list (invoked (frames (f # fs) s)) (hid h) = Suc (count_list (invoked s) (hid h))
       \<and> hid h \<notin> set (map hid (updaters (frames (f # fs) s)))"
    using a thrower_dropped[where s=s and before=before and h=h and after=after and f=f and fs=fs]
    by blast
  show "hid h \<notin> set (map hid (updaters (loop s)))" using r by blast
  show "count_list (warned (loop s)) (hid h) = Suc (count_list (warned s) (hid h))" using r by blast
  show "count_list (ticked (frames (f # fs) s)) (hid h) = Suc (count_list (ticked s) (hid h))"
    using r by blast
  show "count_list (invoked (frames (f # fs) s)) (hid h) = Suc (count_list (invoked s) (hid h))"
    using r by blast
  show "hid h \<notin> set (map hid (updaters (frames (f # fs) s)))" using r by blast
next
  assume a: "distinct (map hid (updaters s)) \<and> g \<in> set (updaters s)
      \<and> hid g \<notin> set (map hid (updaters (loop s)))"
  have r: "throws (origUpdate g (calls g))
       \<and> count_list (warned (loop s)) (hid g) = Suc (count_list (warned s) (hid g))"
    using a only_throwers_dropped[where s=s and g=g] by blast
  show "throws (origUpdate g (calls g))" using r by blast
  show "count_list (warned (loop s)) (hid g) = Suc (count_list (warned s) (hid g))" using r by blast
next
  assume a: "distinct (map hid (updaters s)) \<and> g \<in> set (updaters s)
      \<and> (\<forall>i<n. \<not> throws (origUpdate g i)) \<and> throws (origUpdate g n) \<and> calls g \<le> n"
  show "\<exists>m. count_list (invoked (frames fs s)) (hid g) = count_list (invoked s) (hid g) + m
          \<and> ((\<exists>h' \<in> set (updaters (frames fs s)).
                 hid h' = hid g \<and> origUpdate h' = origUpdate g \<and> calls h' = calls g + m \<and> calls h' \<le> n
                 \<and> count_list (warned (frames fs s)) (hid g) = count_list (warned s) (hid g))
             \<or> (hid g \<notin> set (map hid (updaters (frames fs s))) \<and> calls g + m = Suc n
                 \<and> count_list (warned (frames fs s)) (hid g) = Suc (count_list (warned s) (hid g))))"
    using a first_throw[where s=s and h=g and n=n and fs=fs] by blast
qed

lemma two_behaviours_updaters: "updaters two_behaviours = [still_handle 0, boom_handle 0]"
  by (simp add: scenario_defs still_handle_def boom_handle_def)

lemma two_frames_updaters:
  "updaters (frames [id, id] two_behaviours) = [still_handle 2, boom_handle 2]"
  by (simp add: scenario_defs run_defs still_handle_def boom_handle_def numeral_2_eq_2)

lemma five_frames_updaters:
  "map hid (updaters (frames [id, id, id, id, id] two_behaviours)) = [0]"
  by (simp add: scenario_defs run_defs numeral_2_eq_2)

theorem fault_isolation_witness:
  "1 \<notin> set (map hid (updaters (loop (frames [id, id] two_behaviours))))
 \<and> count_list (ticked (frames [id, id, id] (frames [id, id] two_behaviours))) 1
      = Suc (count_list (ticked (frames [id, id] two_behaviours)) 1)
 \<and> count_list (invoked (frames [id, id, id] (frames [id, id] two_behaviours))) 1
      = Suc (count_list (invoked (frames [id, id] two_behaviours)) 1)
 \<and> 1 \<notin> set (map hid (updaters (frames [id, id, id] (frames [id, id] two_behaviours))))
 \<and> throws (origUpdate (boom_handle 2) 2)
 \<and> count_list (invoked (frames [id, id, id, id, id] two_behaviours)) 1 = 3
 \<and> count_list (warned (frames [id, id, id, id, id] two_behaviours)) 1 = 1"
proof -
  let ?s2 = "frames [id, id] two_behaviours"
  let ?s5 = "frames [id, id, id, id, id] two_behaviours"
  have d2: "distinct (map hid (updaters ?s2))"
    unfolding two_frames_updaters by (simp add: still_handle_def boom_handle_def)
  have u2: "updaters ?s2 = [still_handle 2] @ boom_handle 2 # []"
    unfolding two_frames_updaters by simp
  have t2: "fst (update (boom_handle 2) (at_turn [] ?s2)) \<noteq> None"
    unfolding update_throws_iff by (simp add: all_roots_inactive_def boom_handle_def)
  have g2: "boom_handle 2 \<in> set (updaters ?s2)"
    unfolding two_frames_updaters by simp
  have k: "hid (boom_handle 2) = 1" "calls (boom_handle 2) = 2" "hid (boom_handle 0) = 1"
    "calls (boom_handle 0) = 0"
    by (simp_all add: boom_handle_def)
  have d0: "distinct (map hid (updaters two_behaviours))"
    unfolding two_behaviours_updaters by (simp add: still_handle_def boom_handle_def)
  have g0: "boom_handle 0 \<in> set (updaters two_behaviours)"
    unfolding two_behaviours_updaters by simp
  have n0: "(\<forall>i<2. \<not> throws (origUpdate (boom_handle 0) i)) \<and> throws (origUpdate (boom_handle 0) 2)
      \<and> calls (boom_handle 0) \<le> 2"
    by (simp add: boom_handle_def)
  have i0: "count_list (invoked two_behaviours) 1 = 0" "count_list (warned two_behaviours) 1 = 0"
    by (simp_all add: scenario_defs)
  have a5: "1 \<notin> set (map hid (updaters ?s5))"
    unfolding five_frames_updaters by simp
  note A = fault_isolation[where s="?s2" and before="[still_handle 2]" and h="boom_handle 2"
      and after="[]" and f=id and fs="[id, id]" and g="boom_handle 2" and n=2]
  note B = fault_isolation[where s=two_behaviours and before="[still_handle 0]" and h="boom_handle 0"
      and after="[]" and f=id and fs="[id, id, id, id, id]" and g="boom_handle 0" and n=2]
  have A1: "hid (boom_handle 2) \<notin> set (map hid (updaters (loop ?s2)))
    \<and> count_list (ticked (frames (id # [id, id]) ?s2)) (hid (boom_handle 2))
         = Suc (count_list (ticked ?s2) (hid (boom_handle 2)))
    \<and> count_list (invoked (frames (id # [id, id]) ?s2)) (hid (boom_handle 2))
         = Suc (count_list (invoked ?s2) (hid (boom_handle 2)))
    \<and> hid (boom_handle 2) \<notin> set (map hid (updaters (frames (id # [id, id]) ?s2)))"
    using A d2 u2 t2 by blast
  have A2: "throws (origUpdate (boom_handle 2) (calls (boom_handle 2)))"
    using A d2 g2 A1 by blast
  have B1: "\<exists>m. count_list (invoked ?s5) (hid (boom_handle 0)) = count_list (invoked two_behaviours) (hid (boom_handle 0)) + m
          \<and> ((\<exists>h' \<in> set (updaters ?s5).
                 hid h' = hid (boom_handle 0) \<and> origUpdate h' = origUpdate (boom_handle 0)
                 \<and> calls h' = calls (boom_handle 0) + m \<and> calls h' \<le> 2
                 \<and> count_list (warned ?s5) (hid (boom_handle 0)) = count_list (warned two_behaviours) (hid (boom_handle 0)))
             \<or> (hid (boom_handle 0) \<notin> set (map hid (updaters ?s5)) \<and> calls (boom_handle 0) + m = Suc 2
                 \<and> count_list (warned ?s5) (hid (boom_handle 0)) = Suc (count_list (warned two_behaviours) (hid (boom_handle 0)))))"
    using B d0 g0 n0 by blast
  have no: "\<And>h'. h' \<in> set (updaters ?s5) \<Longrightarrow> hid h' \<noteq> 1"
    using a5 by (metis image_eqI set_map)
  obtain m where m: "count_list (invoked ?s5) 1 = 0 + m"
      "(\<exists>h' \<in> set (updaters ?s5). hid h' = 1 \<and> origUpdate h' = origUpdate (boom_handle 0)
                 \<and> calls h' = 0 + m \<and> calls h' \<le> 2
                 \<and> count_list (warned ?s5) 1 = 0)
       \<or> (1 \<notin> set (map hid (updaters ?s5)) \<and> 0 + m = Suc 2
                 \<and> count_list (warned ?s5) 1 = Suc 0)"
    using B1 unfolding k i0 by blast
  have "0 + m = Suc 2 \<and> count_list (warned ?s5) 1 = Suc 0"
    using m(2) no by blast
  then have B2: "count_list (invoked ?s5) 1 = 3 \<and> count_list (warned ?s5) 1 = 1"
    using m(1) by (simp del: frames.simps)
  show ?thesis
    using A1 A2 B2 unfolding k by (simp del: frames.simps)
qed

subsection \<open>Root bodies\<close>

lemma no_roots_update:
  assumes "rootBodies h = []"
  shows "\<not> all_roots_inactive h w
       \<and> invoked (snd (snd (update h s))) = invoked s @ [hid h]
       \<and> dead (fst (snd (update h s))) = dead h"
proof -
  have n: "\<And>w. \<not> all_roots_inactive h w" using assms by (simp add: all_roots_inactive_def)
  show ?thesis
    using n update_run[OF n, of s] by (simp add: update_invoked entered_def)
qed

lemma no_roots_loop:
  assumes d: "distinct (map hid (updaters s))" and h: "h \<in> set (updaters s)"
    and r: "rootBodies h = []"
  shows "count_list (invoked (loop s)) (hid h) = Suc (count_list (invoked s) (hid h))
       \<and> (hid h \<in> set (map hid (updaters (loop s))) \<longleftrightarrow> \<not> throws (origUpdate h (calls h)))
       \<and> (\<not> throws (origUpdate h (calls h)) \<longrightarrow>
            h\<lparr>inUpdate := False, calls := Suc (calls h)\<rparr> \<in> set (updaters (loop s)))"
proof (cases "throws (origUpdate h (calls h))")
  case True
  then show ?thesis
    using frame_step[OF d h, of "\<lambda>w. w"] r by auto
next
  case False
  have m: "h\<lparr>inUpdate := False, calls := Suc (calls h)\<rparr> \<in> set (updaters (loop s))"
      and c: "count_list (invoked (loop s)) (hid h) = Suc (count_list (invoked s) (hid h))"
    using frame_step[OF d h, of "\<lambda>w. w"] r False by auto
  have "hid (h\<lparr>inUpdate := False, calls := Suc (calls h)\<rparr>) \<in> hid ` set (updaters (loop s))"
    using m by (rule imageI)
  then have "hid h \<in> set (map hid (updaters (loop s)))" by simp
  then show ?thesis using False m c by blast
qed

text \<open>
  C10: a behaviour without root bodies is never marked dead. With \<open>rootBodies\<close> empty the
  guard \<^verbatim>\<open>rootBodies.length > 0 && ...\<close> fails in every world, so each \<^verbatim>\<open>update\<close> invokes
  the generated update and leaves \<open>dead\<close> as it is; on every frame the behaviour is
  invoked once and stays in the array exactly when that invocation does not throw; if its
  script never throws it is still there, not dead, after any number of frames, invoked
  once per frame. A setup phase that registers nothing gives such a handle.
\<close>

theorem empty_roots_never_dead:
  "(rootBodies h = [] \<longrightarrow>
      \<not> all_roots_inactive h w
    \<and> invoked (snd (snd (update h s))) = invoked s @ [hid h]
    \<and> dead (fst (snd (update h s))) = dead h)
 \<and> (distinct (map hid (updaters s)) \<and> h \<in> set (updaters s) \<and> rootBodies h = [] \<longrightarrow>
      count_list (invoked (loop s)) (hid h) = Suc (count_list (invoked s) (hid h))
    \<and> (hid h \<in> set (map hid (updaters (loop s))) \<longleftrightarrow> \<not> throws (origUpdate h (calls h)))
    \<and> (\<not> throws (origUpdate h (calls h)) \<longrightarrow>
          h\<lparr>inUpdate := False, calls := Suc (calls h)\<rparr> \<in> set (updaters (loop s))))
 \<and> (distinct (map hid (updaters s)) \<and> h \<in> set (updaters s) \<and> rootBodies h = []
      \<and> (\<forall>i. \<not> throws (origUpdate h i)) \<longrightarrow>
      (\<exists>h' \<in> set (updaters (frames fs s)).
           hid h' = hid h \<and> origUpdate h' = origUpdate h \<and> rootBodies h' = [] \<and> dead h' = dead h
         \<and> calls h' = calls h + length fs
         \<and> count_list (invoked (frames fs s)) (hid h) = count_list (invoked s) (hid h) + length fs))
 \<and> (nf code = Inr fn \<and> (\<forall>obj. Register obj \<notin> set (setup_phase (fn x y)))
      \<and> \<not> throws (setup_phase (fn x y)) \<and> returned_update (fn x y) = Some u \<longrightarrow>
      (\<exists>h'. updaters (snd (execute nf code x y s)) = updaters s @ [h']
           \<and> rootBodies h' = [] \<and> \<not> dead h' \<and> origUpdate h' = u \<and> hid h' = created s))"
  using no_roots_update[where h=h and w=w and s=s]
    no_roots_loop[where h=h and s=s]
    never_dead[where h=h and s=s and fs=fs]
    execute_no_roots[where nf=nf and code=code and fn=fn and x=x and y=y and u=u and s=s]
  by blast

theorem empty_roots_never_dead_witness:
  "count_list (invoked (loop two_behaviours)) 0 = Suc (count_list (invoked two_behaviours) 0)
 \<and> 0 \<in> set (map hid (updaters (loop two_behaviours)))
 \<and> (\<exists>h' \<in> set (updaters (frames [id, id, id, id, id] two_behaviours)).
        hid h' = 0 \<and> rootBodies h' = [] \<and> \<not> dead h' \<and> calls h' = 5)
 \<and> count_list (invoked (frames [id, id, id, id, id] two_behaviours)) 0
      = count_list (invoked two_behaviours) 0 + 5
 \<and> (\<exists>h'. updaters (snd (execute engine (Str ''still'') 0 0 (createExecutor fresh_world))) = [h']
        \<and> rootBodies h' = [] \<and> \<not> dead h' \<and> hid h' = 0)"
proof -
  have d0: "distinct (map hid (updaters two_behaviours))"
    unfolding two_behaviours_updaters by (simp add: still_handle_def boom_handle_def)
  have g0: "still_handle 0 \<in> set (updaters two_behaviours)"
    unfolding two_behaviours_updaters by simp
  have k: "hid (still_handle 0) = 0" "calls (still_handle 0) = 0" "rootBodies (still_handle 0) = []"
    "dead (still_handle 0) = False" "\<forall>i. \<not> throws (origUpdate (still_handle 0) i)"
    by (simp_all add: still_handle_def)
  have e: "engine (Str ''still'') = Inr (\<lambda>spawnX spawnY. \<lparr>setup_phase = [], returned_update = Some (\<lambda>n. [])\<rparr>)"
    by (simp add: engine_def)
  note T = empty_roots_never_dead[where h="still_handle 0" and s=two_behaviours and w=fresh_world
      and fs="[id, id, id, id, id]" and nf=engine and code="Str ''still''"
      and fn="\<lambda>spawnX spawnY. \<lparr>setup_phase = [], returned_update = Some (\<lambda>n. [])\<rparr>"
      and x=0 and y=0 and u="\<lambda>n. []"]
  note U = empty_roots_never_dead[where h="still_handle 0" and s="createExecutor fresh_world" and w=fresh_world
      and fs="[]" and nf=engine and code="Str ''still''"
      and fn="\<lambda>spawnX spawnY. \<lparr>setup_phase = [], returned_update = Some (\<lambda>n. [])\<rparr>"
      and x=0 and y=0 and u="\<lambda>n. []"]
  have T2: "count_list (invoked (loop two_behaviours)) (hid (still_handle 0))
              = Suc (count_list (invoked two_behaviours) (hid (still_handle 0)))
    \<and> hid (still_handle 0) \<in> set (map hid (updaters (loop two_behaviours)))"
    using T d0 g0 k(3,5) by blast
  have T3: "\<exists>h' \<in> set (updaters (frames [id, id, id, id, id] two_behaviours)).
           hid h' = hid (still_handle 0) \<and> origUpdate h' = origUpdate (still_handle 0) \<and> rootBodies h' = []
         \<and> dead h' = dead (still_handle 0)
         \<and> calls h' = calls (still_handle 0) + length [id, id, id, id, id :: world \<Rightarrow> world]
         \<and> count_list (invoked (frames [id, id, id, id, id] two_behaviours)) (hid (still_handle 0))
             = count_list (invoked two_behaviours) (hid (still_handle 0)) + length [id, id, id, id, id :: world \<Rightarrow> world]"
    using T d0 g0 k(3,5) by blast
  have U4: "\<exists>h'. updaters (snd (execute engine (Str ''still'') 0 0 (createExecutor fresh_world)))
               = updaters (createExecutor fresh_world) @ [h']
           \<and> rootBodies h' = [] \<and> \<not> dead h' \<and> origUpdate h' = (\<lambda>n. [])
           \<and> hid h' = created (createExecutor fresh_world)"
    using U e by simp
  have c: "updaters (createExecutor fresh_world) = []" "created (createExecutor fresh_world) = 0"
    by (simp_all add: createExecutor_def)
  show ?thesis
    using T2 T3 U4 unfolding k c by (auto simp del: frames.simps)
qed

text \<open>
  C5 at a concrete run: the behaviour made by \<open>execute\<close> from an artifact that registers
  one object during setup has that object's body as its only root body. Once the body is
  inactive, a frame calls \<^verbatim>\<open>update\<close>, which sets \<open>dead\<close> and returns without invoking the
  generated update; but the loop removes entries only in its \<^verbatim>\<open>catch\<close>, so the handle is
  still in \<open>updaters\<close> after that frame and after three frames, called and skipped on
  each of them.
\<close>

theorem dead_behaviour_stays:
  "map hid (updaters reaped_sim) = [0]
 \<and> concat (map rootBodies (updaters reaped_sim)) = [0]
 \<and> \<not> isActive (bodies (world reaped_sim) 0)
 \<and> map hid (updaters (loop reaped_sim)) = [0]
 \<and> map dead (updaters (loop reaped_sim)) = [True]
 \<and> invoked (loop reaped_sim) = []
 \<and> map hid (updaters (frames [id, id, id] reaped_sim)) = [0]
 \<and> ticked (frames [id, id, id] reaped_sim) = [0, 0, 0]
 \<and> invoked (frames [id, id, id] reaped_sim) = []"
  by (simp add: reaped_sim_def scenario_defs run_defs)

subsection \<open>Single flight\<close>

declare handleSearch_def [simp]

lemma finish_fields [simp]:
  "in_flight (finish a) = in_flight a" "isGenerating (finish a) = False"
  "storage (finish a) = storage a" "puts (finish a) = puts a" "sim (finish a) = sim a"
  "overlay (finish a) = overlay a"
  by (simp_all add: finish_def)

lemma fail_fields [simp]:
  "in_flight (fail e a) = in_flight a" "isGenerating (fail e a) = False"
  "storage (fail e a) = storage a" "puts (fail e a) = puts a" "sim (fail e a) = sim a"
  by (cases e; simp add: fail_def)+

lemma on_cached_fields [simp]:
  "in_flight (on_cached cfg prompt rnd cached a) = in_flight a"
  "isGenerating (on_cached cfg prompt rnd cached a) = False"
  "storage (on_cached cfg prompt rnd cached a) = storage a"
  "puts (on_cached cfg prompt rnd cached a) = puts a"
  by (simp_all add: on_cached_def split: prod.splits option.splits)

lemma on_generated_fields [simp]:
  "in_flight (on_generated cfg prompt key rnd code a) = in_flight a"
  "isGenerating (on_generated cfg prompt key rnd code a) = False"
  by (simp_all add: on_generated_def split: prod.splits option.splits)

lemma resume_single:
  assumes "in_flight a = [t]"
  shows "(in_flight (resume cfg 0 rnd t r a) = [] \<and> \<not> isGenerating (resume cfg 0 rnd t r a))
       \<or> (length (in_flight (resume cfg 0 rnd t r a)) = 1
           \<and> isGenerating (resume cfg 0 rnd t r a) = isGenerating a)"
  using assms
  by (cases "(cfg, 0::nat, rnd, t, r, a)" rule: resume.cases)
     (simp_all add: drop_task_def next_task_def Let_def)

lemma step_single:
  assumes "single_flight a"
  shows "single_flight (step cfg ev a)"
proof (cases ev)
  case (Submit q)
  then show ?thesis using assms by (auto simp: single_flight_def)
next
  case (Settle i r rnd)
  show ?thesis
  proof (cases "i < length (in_flight a)")
    case True
    then have i: "i = 0" and l: "length (in_flight a) = 1" using assms by (auto simp: single_flight_def)
    then obtain t where t: "in_flight a = [t]" by (cases "in_flight a") auto
    have g: "isGenerating a" using assms t by (simp add: single_flight_def)
    show ?thesis
      using resume_single[OF t, of cfg rnd r] Settle i t g by (auto simp: single_flight_def)
  next
    case False
    then show ?thesis using assms Settle by simp
  qed
next
  case (Frame f)
  then show ?thesis using assms by (simp add: single_flight_def)
qed

lemma run_single: "single_flight a \<Longrightarrow> single_flight (fold (step cfg) evs a)"
  by (induction evs arbitrary: a) (simp_all add: step_single)

lemma start_single: "single_flight (start w ls)"
  by (simp add: single_flight_def start_def)

lemma release:
  assumes "single_flight a" and "length (in_flight (step cfg ev a)) < length (in_flight a)"
  shows "\<not> isGenerating (step cfg ev a) \<and> in_flight (step cfg ev a) = []"
proof -
  have "single_flight (step cfg ev a)" using assms(1) by (rule step_single)
  moreover have "length (in_flight a) \<le> 1"
    using assms(1) by (simp add: single_flight_def)
  then have "length (in_flight (step cfg ev a)) = 0"
    using assms(2) by linarith
  ultimately show ?thesis by (auto simp: single_flight_def)
qed

lemma terminates:
  assumes "in_flight a = [t]"
  shows "t = AwaitNormalize prompt \<Longrightarrow>
           in_flight (step cfg (Settle 0 (NormalizeResult (Inl e)) rnd) a) = []
         \<and> \<not> isGenerating (step cfg (Settle 0 (NormalizeResult (Inl e)) rnd) a)"
    and "t = AwaitGenerate prompt key \<Longrightarrow>
           in_flight (step cfg (Settle 0 (GenerateResult g) rnd) a) = []
         \<and> \<not> isGenerating (step cfg (Settle 0 (GenerateResult g) rnd) a)"
    and "t = AwaitRemote prompt key \<Longrightarrow> truthy (firebase_value res) \<Longrightarrow>
           in_flight (step cfg (Settle 0 (RemoteResult res) rnd) a) = []
         \<and> \<not> isGenerating (step cfg (Settle 0 (RemoteResult res) rnd) a)"
  using assms by (cases g; simp add: drop_task_def Let_def)+

text \<open>
  C6: single flight. In every state reached from the start by any sequence of events at
  most one submission is in flight, and \<open>isGenerating\<close> is set exactly while one is;
  every event preserves this. A submission made while \<open>isGenerating\<close> is set changes
  nothing. When the in-flight submission ends, by whatever event, \<open>isGenerating\<close> is
  cleared and nothing is in flight, so that the next submission is accepted: it ends when
  the normaliser rejects, when a remote hit is executed, and on any answer of the
  generator (a rejection, code that executes, code that does not).
\<close>

theorem single_flight_policy:
  "single_flight (fold (step cfg) evs (start w ls))
 \<and> (single_flight a \<longrightarrow> single_flight (step cfg ev a))
 \<and> (isGenerating a \<longrightarrow> step cfg (Submit q) a = a)
 \<and> (single_flight b \<and> \<not> isGenerating b \<longrightarrow>
      in_flight (step cfg (Submit q) b) = [AwaitNormalize q]
    \<and> isGenerating (step cfg (Submit q) b))
 \<and> (single_flight a \<and> length (in_flight (step cfg ev a)) < length (in_flight a) \<longrightarrow>
      \<not> isGenerating (step cfg ev a) \<and> in_flight (step cfg ev a) = [])
 \<and> (in_flight a = [AwaitNormalize prompt] \<longrightarrow>
      in_flight (step cfg (Settle 0 (NormalizeResult (Inl e)) rnd) a) = []
    \<and> \<not> isGenerating (step cfg (Settle 0 (NormalizeResult (Inl e)) rnd) a))
 \<and> (in_flight a = [AwaitGenerate prompt key] \<longrightarrow>
      in_flight (step cfg (Settle 0 (GenerateResult g) rnd) a) = []
    \<and> \<not> isGenerating (step cfg (Settle 0 (GenerateResult g) rnd) a))
 \<and> (in_flight a = [AwaitRemote prompt key] \<and> truthy (firebase_value res) \<longrightarrow>
      in_flight (step cfg (Settle 0 (RemoteResult res) rnd) a) = []
    \<and> \<not> isGenerating (step cfg (Settle 0 (RemoteResult res) rnd) a))"
proof (intro conjI impI)
  show "single_flight (fold (step cfg) evs (start w ls))"
    using start_single by (rule run_single)
next
  assume "single_flight a"
  then show "single_flight (step cfg ev a)" by (rule step_single)
next
  assume "isGenerating a"
  then show "step cfg (Submit q) a = a" by simp
next
  assume a: "single_flight b \<and> \<not> isGenerating b"
  then have "in_flight b = []" by (auto simp: single_flight_def)
  then show "in_flight (step cfg (Submit q) b) = [AwaitNormalize q]" using a by simp
  show "isGenerating (step cfg (Submit q) b)" using a by simp
next
  assume a: "single_flight a \<and> length (in_flight (step cfg ev a)) < length (in_flight a)"
  show "\<not> isGenerating (step cfg ev a)" using a release[of a cfg ev] by blast
  show "in_flight (step cfg ev a) = []" using a release[of a cfg ev] by blast
next
  assume a: "in_flight a = [AwaitNormalize prompt]"
  show "in_flight (step cfg (Settle 0 (NormalizeResult (Inl e)) rnd) a) = []"
    using terminates(1)[OF a refl] by blast
  show "\<not> isGenerating (step cfg (Settle 0 (NormalizeResult (Inl e)) rnd) a)"
    using terminates(1)[OF a refl] by blast
next
  assume a: "in_flight a = [AwaitGenerate prompt key]"
  show "in_flight (step cfg (Settle 0 (GenerateResult g) rnd) a) = []"
    using terminates(2)[OF a refl] by blast
  show "\<not> isGenerating (step cfg (Settle 0 (GenerateResult g) rnd) a)"
    using terminates(2)[OF a refl] by blast
next
  assume a: "in_flight a = [AwaitRemote prompt key] \<and> truthy (firebase_value res)"
  then have a1: "in_flight a = [AwaitRemote prompt key]" and a2: "truthy (firebase_value res)"
    by simp_all
  show "in_flight (step cfg (Settle 0 (RemoteResult res) rnd) a) = []"
    using terminates(3)[OF a1 refl a2] by blast
  show "\<not> isGenerating (step cfg (Settle 0 (RemoteResult res) rnd) a)"
    using terminates(3)[OF a1 refl a2] by blast
qed

theorem single_flight_policy_witness:
  "isGenerating (step cfg0 (Submit ''give me rain'') app0)
 \<and> in_flight (step cfg0 (Submit ''give me rain'') app0) = [AwaitNormalize ''give me rain'']
 \<and> step cfg0 (Submit ''a second one'') (step cfg0 (Submit ''give me rain'') app0)
      = step cfg0 (Submit ''give me rain'') app0
 \<and> \<not> isGenerating (step cfg0 (Settle 0 offline 0) (step cfg0 (Submit ''give me rain'') app0))
 \<and> in_flight (step cfg0 (Settle 0 offline 0) (step cfg0 (Submit ''give me rain'') app0)) = []
 \<and> in_flight (step cfg0 (Submit ''a second one'')
        (step cfg0 (Settle 0 offline 0) (step cfg0 (Submit ''give me rain'') app0)))
      = [AwaitNormalize ''a second one'']"
proof -
  let ?a1 = "step cfg0 (Submit ''give me rain'') app0"
  let ?a2 = "step cfg0 (Settle 0 offline 0) ?a1"
  have s0: "single_flight app0 \<and> \<not> isGenerating app0"
    by (simp add: app0_def start_def single_flight_def)
  note T0 = single_flight_policy[where cfg=cfg0 and evs="[]" and w=fresh_world and ls=fresh_storage
      and a="?a1" and b=app0 and ev="Settle 0 offline 0" and q="''give me rain''"
      and prompt="''give me rain''" and e="Error ''Failed to fetch''" and rnd=0 and key="[]"
      and g="Inl Nullish" and res=NetworkError]
  have f1: "in_flight ?a1 = [AwaitNormalize ''give me rain''] \<and> isGenerating ?a1"
    using T0 s0 by blast
  note T1 = single_flight_policy[where cfg=cfg0 and evs="[]" and w=fresh_world and ls=fresh_storage
      and a="?a1" and b="?a2" and ev="Settle 0 offline 0" and q="''a second one''"
      and prompt="''give me rain''" and e="Error ''Failed to fetch''" and rnd=0 and key="[]"
      and g="Inl Nullish" and res=NetworkError]
  have f2: "step cfg0 (Submit ''a second one'') ?a1 = ?a1"
    using T1 f1 by blast
  have f3: "in_flight ?a2 = [] \<and> \<not> isGenerating ?a2"
    using T1 f1 unfolding offline_def by blast
  have s2: "single_flight ?a2" using f3 by (simp add: single_flight_def)
  have f4: "in_flight (step cfg0 (Submit ''a second one'') ?a2) = [AwaitNormalize ''a second one'']"
    using T1 s2 f3 by blast
  show ?thesis using f1 f2 f3 f4 by blast
qed

subsection \<open>Compile failure\<close>

lemma kinds_differ: "syntax_error m \<noteq> runtime_error e"
  by (cases e) (simp_all add: syntax_error_def runtime_error_def TypeError_message_def)

lemma execute_syntax:
  "nf code = Inl m \<Longrightarrow> execute nf code x y s = (Some (syntax_error m), s)"
  by (simp add: execute_def syntax_error_def)

lemma execute_compiled:
  assumes "nf code = Inr fn"
  shows "fst (execute nf code x y s) = None \<or> (\<exists>e. fst (execute nf code x y s) = Some (runtime_error e))"
proof -
  obtain r c s' where run:
    "run_actions (setup_phase (fn x y)) (\<lparr>inUpdate = False, rootBodies = []\<rparr>, s) = (r, c, s')"
    by (metis prod.collapse)
  show ?thesis
    using assms run by (cases r) (auto simp: execute_def runtime_error_def split: option.splits)
qed

lemma syntax_error_iff:
  "(\<exists>m. fst (execute nf code x y s) = Some (syntax_error m)) \<longleftrightarrow> (\<exists>m. nf code = Inl m)"
proof (cases "nf code")
  case (Inl m)
  then show ?thesis
    using execute_syntax[where nf=nf and code=code and m=m and x=x and y=y and s=s] by auto
next
  case (Inr fn)
  then show ?thesis
    using execute_compiled[where nf=nf and code=code and fn=fn and x=x and y=y and s=s] kinds_differ
    by (metis Inl_Inr_False option.distinct(1) option.inject)
qed

lemma malformed_generated:
  assumes "i < length (in_flight a)" and "in_flight a ! i = AwaitGenerate prompt key"
    and "new_Function cfg (Str code) = Inl m"
  shows "storage (step cfg (Settle i (GenerateResult (Inr code)) rnd) a) = storage a
       \<and> puts (step cfg (Settle i (GenerateResult (Inr code)) rnd) a) = puts a
       \<and> sim (step cfg (Settle i (GenerateResult (Inr code)) rnd) a) = sim a
       \<and> overlay (step cfg (Settle i (GenerateResult (Inr code)) rnd) a)
            = overlay a @ [Failure (''Syntax error in generated code: '' @ m)]
       \<and> \<not> isGenerating (step cfg (Settle i (GenerateResult (Inr code)) rnd) a)
       \<and> in_flight (step cfg (Settle i (GenerateResult (Inr code)) rnd) a)
            = take i (in_flight a) @ drop (Suc i) (in_flight a)"
  using assms
  by (simp add: on_generated_def execute_syntax syntax_error_def fail_def finish_def drop_task_def)

lemma malformed_local:
  assumes "i < length (in_flight a)" and "in_flight a ! i = AwaitNormalize prompt"
    and "truthy (getLocal (storage a) key)"
    and "new_Function cfg (getLocal (storage a) key) = Inl m"
  shows "storage (step cfg (Settle i (NormalizeResult (Inr key)) rnd) a) = storage a
       \<and> puts (step cfg (Settle i (NormalizeResult (Inr key)) rnd) a) = puts a
       \<and> sim (step cfg (Settle i (NormalizeResult (Inr key)) rnd) a) = sim a
       \<and> overlay (step cfg (Settle i (NormalizeResult (Inr key)) rnd) a)
            = overlay a @ [Failure (''Syntax error in generated code: '' @ m)]
       \<and> \<not> isGenerating (step cfg (Settle i (NormalizeResult (Inr key)) rnd) a)"
  using assms
  by (simp add: on_cached_def execute_syntax syntax_error_def fail_def finish_def drop_task_def Let_def)

lemma malformed_remote:
  assumes "i < length (in_flight a)" and "in_flight a ! i = AwaitRemote prompt key"
    and "truthy (firebase_value res)"
    and "new_Function cfg (firebase_value res) = Inl m"
  shows "storage (step cfg (Settle i (RemoteResult res) rnd) a)
            = setLocal (storage a) key (firebase_value res)
       \<and> puts (step cfg (Settle i (RemoteResult res) rnd) a) = puts a
       \<and> sim (step cfg (Settle i (RemoteResult res) rnd) a) = sim a
       \<and> overlay (step cfg (Settle i (RemoteResult res) rnd) a)
            = overlay a @ [Failure (''Syntax error in generated code: '' @ m)]
       \<and> \<not> isGenerating (step cfg (Settle i (RemoteResult res) rnd) a)"
  using assms
  by (simp add: on_cached_def execute_syntax syntax_error_def fail_def finish_def drop_task_def Let_def)

text \<open>\<^verbatim>\<open>cache.get\<close> as the two halves \<^verbatim>\<open>handleSearch\<close> sees around its suspension.\<close>

lemma cache_get_halves:
  "cache_get url net ls key =
     (if truthy (getLocal ls key) then (getLocal ls key, ls)
      else if url = [] then (Null, ls)
      else if truthy (firebase_value (net (cache_url url key)))
           then (firebase_value (net (cache_url url key)),
                 setLocal ls key (firebase_value (net (cache_url url key))))
           else (Null, ls))"
  by (simp add: cache_get_def getFirebase_def Let_def)

text \<open>
  C9, as stated: for every malformed artifact nothing is written to either cache tier
  for that submission. A malformed artifact found in the remote tier is promoted into the
  local tier by \<^verbatim>\<open>cache.get\<close> before \<open>execute\<close> tries to compile it: after the run
  below the local tier holds the artifact under the key, and the overlay shows the syntax
  error.
\<close>

theorem compile_failure_counterexample:
  "items (storage app0) (LS_PREFIX @ ''bad'') = None
 \<and> items (storage (fold (step cfg0) malformed_run app0)) (LS_PREFIX @ ''bad'') = Some (Json (Str ''}''))
 \<and> overlay (fold (step cfg0) malformed_run app0)
      = [Loading ''Generating \"gizmo\"...'',
         Failure ''Syntax error in generated code: Unexpected token }'']"
  by (simp add: malformed_run_def app0_def cfg0_def start_def fresh_storage_def db_url_def
      getLocal_def getItem_def firebase_value_def next_task_def drop_task_def on_cached_def
      execute_def engine_def fail_def finish_def setLocal_def setItem_def JSON_stringify_def
      Let_def)

text \<open>
  C9, amended: a malformed artifact makes \<open>execute\<close> raise the syntax error with the
  engine's message and leaves the executor as it was; that error differs from every
  runtime error, and \<open>execute\<close> raises it exactly when compilation fails. The submission
  fails: the overlay shows the message and the lock is released. When the artifact came
  from the generator or from the local tier, neither cache tier is written, and the
  remote tier is never written (\<^verbatim>\<open>cache.set\<close> is reached only after \<open>execute\<close> returns);
  when it came from the remote tier, the local tier has received it by promotion and
  nothing else is written.
\<close>

theorem compile_failure:
  "(nf code = Inl m \<longrightarrow> execute nf code x y s = (Some (syntax_error m), s))
 \<and> syntax_error m \<noteq> runtime_error e
 \<and> ((\<exists>m'. fst (execute nf code x y s) = Some (syntax_error m')) \<longleftrightarrow> (\<exists>m'. nf code = Inl m'))
 \<and> (i < length (in_flight a) \<and> in_flight a ! i = AwaitGenerate prompt key
      \<and> new_Function cfg (Str src) = Inl m \<longrightarrow>
      storage (step cfg (Settle i (GenerateResult (Inr src)) rnd) a) = storage a
    \<and> puts (step cfg (Settle i (GenerateResult (Inr src)) rnd) a) = puts a
    \<and> sim (step cfg (Settle i (GenerateResult (Inr src)) rnd) a) = sim a
    \<and> overlay (step cfg (Settle i (GenerateResult (Inr src)) rnd) a)
         = overlay a @ [Failure (''Syntax error in generated code: '' @ m)]
    \<and> \<not> isGenerating (step cfg (Settle i (GenerateResult (Inr src)) rnd) a)
    \<and> in_flight (step cfg (Settle i (GenerateResult (Inr src)) rnd) a)
         = take i (in_flight a) @ drop (Suc i) (in_flight a))
 \<and> (i < length (in_flight a) \<and> in_flight a ! i = AwaitNormalize prompt
      \<and> truthy (getLocal (storage a) key) \<and> new_Function cfg (getLocal (storage a) key) = Inl m \<longrightarrow>
      storage (step cfg (Settle i (NormalizeResult (Inr key)) rnd) a) = storage a
    \<and> puts (step cfg (Settle i (NormalizeResult (Inr key)) rnd) a) = puts a
    \<and> sim (step cfg (Settle i (NormalizeResult (Inr key)) rnd) a) = sim a
    \<and> overlay (step cfg (Settle i (NormalizeResult (Inr key)) rnd) a)
         = overlay a @ [Failure (''Syntax error in generated code: '' @ m)]
    \<and> \<not> isGenerating (step cfg (Settle i (NormalizeResult (Inr key)) rnd) a))
 \<and> (i < length (in_flight a) \<and> in_flight a ! i = AwaitRemote prompt key
      \<and> truthy (firebase_value res) \<and> new_Function cfg (firebase_value res) = Inl m \<longrightarrow>
      storage (step cfg (Settle i (RemoteResult res) rnd) a)
         = setLocal (storage a) key (firebase_value res)
    \<and> puts (step cfg (Settle i (RemoteResult res) rnd) a) = puts a
    \<and> sim (step cfg (Settle i (RemoteResult res) rnd) a) = sim a
    \<and> overlay (step cfg (Settle i (RemoteResult res) rnd) a)
         = overlay a @ [Failure (''Syntax error in generated code: '' @ m)]
    \<and> \<not> isGenerating (step cfg (Settle i (RemoteResult res) rnd) a))"
  using execute_syntax[where nf=nf and code=code and m=m and x=x and y=y and s=s]
    kinds_differ[where m=m and e=e]
    syntax_error_iff[where nf=nf and code=code and x=x and y=y and s=s]
    malformed_generated[where i=i and a=a and prompt=prompt and key=key and cfg=cfg and code=src and m=m and rnd=rnd]
    malformed_local[where i=i and a=a and prompt=prompt and key=key and cfg=cfg and m=m and rnd=rnd]
    malformed_remote[where i=i and a=a and prompt=prompt and key=key and cfg=cfg and m=m and rnd=rnd and res=res]
  by blast

theorem compile_failure_witness:
  "execute engine (Str ''}'') 0 5 (createExecutor fresh_world)
     = (Some (syntax_error ''Unexpected token }''), createExecutor fresh_world)
 \<and> storage (step cfg0 (Settle 0 (GenerateResult (Inr ''}'')) 0) (fold (step cfg0) miss_run app0))
     = storage (fold (step cfg0) miss_run app0)
 \<and> puts (step cfg0 (Settle 0 (GenerateResult (Inr ''}'')) 0) (fold (step cfg0) miss_run app0))
     = puts (fold (step cfg0) miss_run app0)
 \<and> overlay (step cfg0 (Settle 0 (GenerateResult (Inr ''}'')) 0) (fold (step cfg0) miss_run app0))
     = overlay (fold (step cfg0) miss_run app0)
         @ [Failure (''Syntax error in generated code: '' @ ''Unexpected token }'')]
 \<and> \<not> isGenerating (step cfg0 (Settle 0 (GenerateResult (Inr ''}'')) 0) (fold (step cfg0) miss_run app0))
 \<and> storage (step cfg0 (Settle 0 (RemoteResult (Response True (Json (Str ''}'')))) 0)
              (fold (step cfg0) hit_run app0))
     = setLocal (storage (fold (step cfg0) hit_run app0)) ''bad'' (Str ''}'')"
proof -
  let ?a3 = "fold (step cfg0) miss_run app0"
  let ?a2 = "fold (step cfg0) hit_run app0"
  let ?res = "Response True (Json (Str ''}''))"
  have e: "engine (Str ''}'') = Inl ''Unexpected token }''" by (simp add: engine_def)
  have n: "new_Function cfg0 = engine" by (simp add: cfg0_def)
  have t3: "0 < length (in_flight ?a3) \<and> in_flight ?a3 ! 0 = AwaitGenerate ''gizmo'' ''bad''"
    by (simp add: miss_run_def app0_def cfg0_def start_def fresh_storage_def db_url_def
      getLocal_def getItem_def firebase_value_def next_task_def Let_def)
  have t2: "0 < length (in_flight ?a2) \<and> in_flight ?a2 ! 0 = AwaitRemote ''gizmo'' ''bad''"
    by (simp add: hit_run_def app0_def cfg0_def start_def fresh_storage_def db_url_def
      getLocal_def getItem_def next_task_def Let_def)
  have v: "firebase_value ?res = Str ''}''" by (simp add: firebase_value_def)
  note T = compile_failure[where nf=engine and code="Str ''}''" and m="''Unexpected token }''"
      and x=0 and y=5 and s="createExecutor fresh_world" and e=Nullish and i=0 and a="?a3"
      and prompt="''gizmo''" and key="''bad''" and cfg=cfg0 and src="''}''" and rnd=0 and res="?res"]
  note U = compile_failure[where nf=engine and code="Str ''}''" and m="''Unexpected token }''"
      and x=0 and y=5 and s="createExecutor fresh_world" and e=Nullish and i=0 and a="?a2"
      and prompt="''gizmo''" and key="''bad''" and cfg=cfg0 and src="''}''" and rnd=0 and res="?res"]
  have T1: "execute engine (Str ''}'') 0 5 (createExecutor fresh_world)
     = (Some (syntax_error ''Unexpected token }''), createExecutor fresh_world)"
    using T e by blast
  have T4: "storage (step cfg0 (Settle 0 (GenerateResult (Inr ''}'')) 0) ?a3) = storage ?a3
    \<and> puts (step cfg0 (Settle 0 (GenerateResult (Inr ''}'')) 0) ?a3) = puts ?a3
    \<and> overlay (step cfg0 (Settle 0 (GenerateResult (Inr ''}'')) 0) ?a3)
         = overlay ?a3 @ [Failure (''Syntax error in generated code: '' @ ''Unexpected token }'')]
    \<and> \<not> isGenerating (step cfg0 (Settle 0 (GenerateResult (Inr ''}'')) 0) ?a3)"
    using T t3 e unfolding n by blast
  have tv: "truthy (firebase_value ?res) \<and> new_Function cfg0 (firebase_value ?res) = Inl ''Unexpected token }''"
    unfolding v n using e by simp
  have U6: "storage (step cfg0 (Settle 0 (RemoteResult ?res) 0) ?a2)
         = setLocal (storage ?a2) ''bad'' (firebase_value ?res)"
    using U t2 tv by blast
  show ?thesis
    using T1 T4 U6 unfolding v by blast
qed

subsection \<open>Invariants of the running application\<close>

lemma loop_created [simp]: "created (loop s) = created s"
proof -
  have "\<And>hs s. created (snd (tick_all hs s)) = created s"
  proof -
    fix hs :: "updater list" and s :: sim
    show "created (snd (tick_all hs s)) = created s"
    proof (induction hs arbitrary: s)
      case Nil
      then show ?case by simp
    next
      case (Cons h hs)
      obtain r h' s' where up: "update h s = (r, h', s')" by (metis prod.collapse)
      have c: "created s' = created s" using update_fields(2)[of h s] up by simp
      show ?case using up c Cons.IH by (cases r) simp_all
    qed
  qed
  then show ?thesis by (simp add: loop_tick_all)
qed

lemma handles_ok_loop: "handles_ok s \<Longrightarrow> handles_ok (loop s)"
  using loop_distinct[of s] loop_hids[of s] by (auto simp: handles_ok_def)

lemma handles_ok_execute:
  assumes "handles_ok s"
  shows "handles_ok (snd (execute nf code x y s))"
proof (cases "nf code")
  case (Inl m)
  then show ?thesis using assms by (simp add: execute_def)
next
  case (Inr fn)
  obtain r c s' where run:
    "run_actions (setup_phase (fn x y)) (\<lparr>inUpdate = False, rootBodies = []\<rparr>, s) = (r, c, s')"
    by (metis prod.collapse)
  have u: "updaters s' = updaters s" and cr: "created s' = created s"
    using run_actions_fields(1,2)[of "setup_phase (fn x y)" "(\<lparr>inUpdate = False, rootBodies = []\<rparr>, s)"] run
    by simp_all
  have ok': "handles_ok s'" using assms u cr by (simp add: handles_ok_def)
  show ?thesis
  proof (cases r)
    case (Some e)
    then show ?thesis using Inr run ok' by (simp add: execute_def)
  next
    case None
    show ?thesis
    proof (cases "returned_update (fn x y)")
      case n: None
      then show ?thesis using Inr run None ok' by (simp add: execute_def)
    next
      case (Some orig)
      then show ?thesis
        using Inr run None ok' by (fastforce simp: execute_def handles_ok_def)
    qed
  qed
qed

lemma app_ok_finish [simp]: "app_ok (finish a) = app_ok a"
  by (simp add: app_ok_def finish_def)

lemma app_ok_fail [simp]: "app_ok (fail e a) = app_ok a"
  by (cases e) (simp_all add: fail_def app_ok_def finish_def)

lemma app_ok_executed:
  assumes "app_ok a"
  shows "handles_ok (snd (execute nf code x y (sim a)))
       \<and> length (ephemeral_ring (snd (execute nf code x y (sim a)))) \<le> MAX_EPHEMERAL"
  using assms handles_ok_execute ring_bound_execute by (simp add: app_ok_def)

lemma app_ok_on_cached: "app_ok a \<Longrightarrow> app_ok (on_cached cfg prompt rnd cached a)"
  using app_ok_executed[of a "new_Function cfg" cached "spawnX cfg rnd" "H cfg * 0.15"]
  by (cases "execute (new_Function cfg) cached (spawnX cfg rnd) (H cfg * 0.15) (sim a)")
     (auto simp: on_cached_def app_ok_def split: option.splits)

lemma app_ok_on_generated: "app_ok a \<Longrightarrow> app_ok (on_generated cfg prompt key rnd code a)"
  using app_ok_executed[of a "new_Function cfg" "Str code" "spawnX cfg rnd" 5]
  by (cases "execute (new_Function cfg) (Str code) (spawnX cfg rnd) 5 (sim a)")
     (auto simp: on_generated_def app_ok_def split: option.splits)

lemma app_ok_resume: "app_ok a \<Longrightarrow> app_ok (resume cfg i rnd t r a)"
proof (cases "(cfg, i, rnd, t, r, a)" rule: resume.cases)
  case (2 cfg' i' rnd' prompt key a')
  assume ok: "app_ok a"
  have "app_ok (drop_task i a)" "app_ok (next_task i (AwaitGenerate prompt key) a)"
    "app_ok (next_task i (AwaitRemote prompt key) a)"
    using ok by (simp_all add: app_ok_def drop_task_def next_task_def)
  then show ?thesis using 2 by (simp add: Let_def app_ok_on_cached)
next
  case (3 cfg' i' rnd' prompt key res a')
  assume ok: "app_ok a"
  have "app_ok ((drop_task i a)\<lparr>storage := setLocal (storage a) key (firebase_value res)\<rparr>)"
    "app_ok (next_task i (AwaitGenerate prompt key) a)"
    using ok by (simp_all add: app_ok_def drop_task_def next_task_def)
  then show ?thesis using 3 by (simp add: Let_def app_ok_on_cached)
next
  case (5 cfg' i' rnd' prompt key code a')
  assume ok: "app_ok a"
  have "app_ok (drop_task i a)" using ok by (simp add: app_ok_def drop_task_def)
  then show ?thesis using 5 by (simp add: app_ok_on_generated)
qed (simp_all add: app_ok_def drop_task_def)

lemma app_ok_step: "app_ok a \<Longrightarrow> app_ok (step cfg ev a)"
proof (cases ev)
  case (Submit q)
  assume "app_ok a"
  then show ?thesis using Submit by (simp add: app_ok_def handleSearch_def)
next
  case (Settle i r rnd)
  assume "app_ok a"
  then show ?thesis using Settle by (simp add: app_ok_resume)
next
  case (Frame f)
  assume ok: "app_ok a"
  have "handles_ok (loop (sim a))" using ok handles_ok_loop by (simp add: app_ok_def)
  moreover have "length (ephemeral_ring (loop (sim a))) \<le> MAX_EPHEMERAL"
    using ok ring_bound_loop by (simp add: app_ok_def)
  ultimately show ?thesis using Frame by (simp add: app_ok_def handles_ok_def)
qed

lemma app_ok_run: "app_ok a \<Longrightarrow> app_ok (fold (step cfg) evs a)"
  by (induction evs arbitrary: a) (simp_all add: app_ok_step)

lemma app_ok_start: "app_ok (start w ls)"
  by (simp add: app_ok_def handles_ok_def start_def createExecutor_def)

lemma reachable_ok:
  "distinct (map hid (updaters (sim (fold (step cfg) evs (start w ls)))))
 \<and> length (ephemeral_ring (sim (fold (step cfg) evs (start w ls)))) \<le> MAX_EPHEMERAL"
  using app_ok_run[OF app_ok_start, of cfg evs w ls] by (simp add: app_ok_def handles_ok_def)

subsection \<open>The ring buffer and the tagging of registered objects\<close>

text \<open>
  C1: the ring buffer is bounded and evicts first in, first out. It is empty when the
  executor is created and holds at most 200 entries in every state the application
  reaches, by any submissions, settlements and frames; a register call, a whole
  \<open>execute\<close> and any number of frames keep its length at most 200. An update-time registration into a full buffer drops its
  oldest entry, removes that entry from the registry and issues one \<^verbatim>\<open>destroyBody\<close> for
  its body, whatever closure \<open>c\<close> made the call. Registering 250 distinct objects
  during updates, from an empty buffer and a registry \<open>base\<close> that holds none of them,
  leaves exactly the 200 newest in the buffer and in the registry after \<open>base\<close>, and
  the \<^verbatim>\<open>destroyBody\<close> calls issued are those of the 50 oldest, in order, one each (no
  body twice when the bodies are distinct, none of a surviving object).
\<close>

theorem ring_buffer_bound:
  "length (ephemeral_ring (createExecutor w)) \<le> MAX_EPHEMERAL
 \<and> length (ephemeral_ring (sim (fold (step cfg) evs (start w ls)))) \<le> MAX_EPHEMERAL
 \<and> (length (ephemeral_ring s) \<le> MAX_EPHEMERAL \<longrightarrow>
      length (ephemeral_ring (snd (wrappedRegister obj (c, s)))) \<le> MAX_EPHEMERAL
    \<and> length (ephemeral_ring (snd (execute nf code x y s))) \<le> MAX_EPHEMERAL
    \<and> length (ephemeral_ring (frames fs s)) \<le> MAX_EPHEMERAL)
 \<and> (inUpdate c \<and> length (ephemeral_ring s) = MAX_EPHEMERAL \<longrightarrow>
      ephemeral_ring (snd (wrappedRegister obj (c, s))) = tl (ephemeral_ring s) @ [obj]
    \<and> objects (world (snd (wrappedRegister obj (c, s)))) =
         remove1 (hd (ephemeral_ring s)) (objects (world s) @ [obj])
    \<and> destroyed (world (snd (wrappedRegister obj (c, s)))) =
         destroyed (world s) @ [body_of s (hd (ephemeral_ring s))])
 \<and> (inUpdate c \<and> ephemeral_ring s = [] \<and> objects (world s) = base \<and> set base \<inter> set objs = {}
      \<and> distinct objs \<and> length objs = 250 \<and> inj_on (body_of s) (set objs) \<longrightarrow>
      ephemeral_ring (snd (fold wrappedRegister objs (c, s))) = drop 50 objs
    \<and> objects (world (snd (fold wrappedRegister objs (c, s)))) = base @ drop 50 objs
    \<and> destroyed (world (snd (fold wrappedRegister objs (c, s)))) =
         destroyed (world s) @ map (body_of s) (take 50 objs)
    \<and> distinct (map (body_of s) (take 50 objs))
    \<and> body_of s ` set (drop 50 objs) \<inter> set (map (body_of s) (take 50 objs)) = {})"
proof (intro conjI impI)
  show "length (ephemeral_ring (createExecutor w)) \<le> MAX_EPHEMERAL"
    by (simp add: createExecutor_def)
next
  show "length (ephemeral_ring (sim (fold (step cfg) evs (start w ls)))) \<le> MAX_EPHEMERAL"
    using reachable_ok by blast
next
  assume "length (ephemeral_ring s) \<le> MAX_EPHEMERAL"
  then show "length (ephemeral_ring (snd (wrappedRegister obj (c, s)))) \<le> MAX_EPHEMERAL"
    by (rule ring_bound_wrappedRegister)
next
  assume "length (ephemeral_ring s) \<le> MAX_EPHEMERAL"
  then show "length (ephemeral_ring (snd (execute nf code x y s))) \<le> MAX_EPHEMERAL"
    by (rule ring_bound_execute)
next
  assume "length (ephemeral_ring s) \<le> MAX_EPHEMERAL"
  then show "length (ephemeral_ring (frames fs s)) \<le> MAX_EPHEMERAL"
    by (rule ring_bound_frames)
next
  assume a: "inUpdate c \<and> length (ephemeral_ring s) = MAX_EPHEMERAL"
  note e = evict_oldest[of c s obj]
  show "ephemeral_ring (snd (wrappedRegister obj (c, s))) = tl (ephemeral_ring s) @ [obj]"
    using a e by blast
  show "objects (world (snd (wrappedRegister obj (c, s)))) =
         remove1 (hd (ephemeral_ring s)) (objects (world s) @ [obj])"
    using a e by blast
  show "destroyed (world (snd (wrappedRegister obj (c, s)))) =
         destroyed (world s) @ [body_of s (hd (ephemeral_ring s))]"
    using a e by blast
next
  assume a: "inUpdate c \<and> ephemeral_ring s = [] \<and> objects (world s) = base \<and> set base \<inter> set objs = {}
      \<and> distinct objs \<and> length objs = 250 \<and> inj_on (body_of s) (set objs)"
  have r: "ephemeral_ring (snd (fold wrappedRegister objs (c, s))) = drop 50 objs
       \<and> objects (world (snd (fold wrappedRegister objs (c, s)))) = base @ drop 50 objs
       \<and> destroyed (world (snd (fold wrappedRegister objs (c, s)))) =
            destroyed (world s) @ map (body_of s) (take 50 objs)
       \<and> distinct (map (body_of s) (take 50 objs))
       \<and> body_of s ` set (drop 50 objs) \<inter> set (map (body_of s) (take 50 objs)) = {}"
    by (rule register_250) (use a in simp_all)
  show "ephemeral_ring (snd (fold wrappedRegister objs (c, s))) = drop 50 objs"
    using r by blast
  show "objects (world (snd (fold wrappedRegister objs (c, s)))) = base @ drop 50 objs"
    using r by blast
  show "destroyed (world (snd (fold wrappedRegister objs (c, s)))) =
         destroyed (world s) @ map (body_of s) (take 50 objs)"
    using r by blast
  show "distinct (map (body_of s) (take 50 objs))"
    using r by blast
  show "body_of s ` set (drop 50 objs) \<inter> set (map (body_of s) (take 50 objs)) = {}"
    using r by blast
qed


lemma body_of_fresh: "body_of (createExecutor fresh_world) = (\<lambda>obj. obj)"
  by (rule ext) (simp add: body_of_def createExecutor_def fresh_world_def plain_object_def)

lemma body_of_fold [simp]: "body_of (snd (fold wrappedRegister objs cs)) = body_of (snd cs)"
  by (induction objs arbitrary: cs) simp_all

lemma fresh_200:
  "ephemeral_ring (snd (fold wrappedRegister [0..<200] (in_tick, createExecutor fresh_world))) = [0..<200]"
proof -
  have "fst (fold wrappedRegister [0..<200] (in_tick, createExecutor fresh_world)) = in_tick
       \<and> ephemeral_ring (snd (fold wrappedRegister [0..<200] (in_tick, createExecutor fresh_world)))
            = drop (length ([] @ [0..<200]) - MAX_EPHEMERAL) ([] @ [0..<200])
       \<and> objects (world (snd (fold wrappedRegister [0..<200] (in_tick, createExecutor fresh_world))))
            = [] @ drop (length ([] @ [0..<200]) - MAX_EPHEMERAL) ([] @ [0..<200])
       \<and> destroyed (world (snd (fold wrappedRegister [0..<200] (in_tick, createExecutor fresh_world)))) =
           destroyed (world (createExecutor fresh_world)) @ map (body_of (createExecutor fresh_world))
              (take (length ([] @ [0..<200]) - MAX_EPHEMERAL) ([] @ [0..<200]))"
    by (rule register_many_update)
       (simp_all add: in_tick_def createExecutor_def fresh_world_def MAX_EPHEMERAL_def)
  then show ?thesis by (simp add: MAX_EPHEMERAL_def)
qed

theorem ring_buffer_bound_witness:
  "ephemeral_ring (snd (fold wrappedRegister [0..<250] (in_tick, createExecutor fresh_world))) = [50..<250]
 \<and> objects (world (snd (fold wrappedRegister [0..<250] (in_tick, createExecutor fresh_world)))) = [50..<250]
 \<and> destroyed (world (snd (fold wrappedRegister [0..<250] (in_tick, createExecutor fresh_world)))) = [0..<50]
 \<and> ephemeral_ring (snd (wrappedRegister 200
       (in_tick, snd (fold wrappedRegister [0..<200] (in_tick, createExecutor fresh_world))))) = [1..<201]
 \<and> destroyed (world (snd (wrappedRegister 200
       (in_tick, snd (fold wrappedRegister [0..<200] (in_tick, createExecutor fresh_world)))))) = [0]"
proof -
  let ?s = "createExecutor fresh_world"
  let ?s2 = "snd (fold wrappedRegister [0..<200] (in_tick, ?s))"
  have h1: "inUpdate in_tick \<and> ephemeral_ring ?s = [] \<and> objects (world ?s) = [] \<and> set [] \<inter> set [0..<250] = {}
      \<and> distinct [0..<250] \<and> length [0..<250] = 250 \<and> inj_on (body_of ?s) (set [0..<250])"
  proof (intro conjI)
    show "inj_on (body_of ?s) (set [0..<250])"
      unfolding body_of_fresh by simp
  qed (simp_all add: in_tick_def createExecutor_def fresh_world_def)
  have h2: "inUpdate in_tick \<and> length (ephemeral_ring ?s2) = MAX_EPHEMERAL"
    unfolding fresh_200 by (simp add: in_tick_def MAX_EPHEMERAL_def)
  have d2: "destroyed (world ?s2) = []"
  proof -
    have "fst (fold wrappedRegister [0..<200] (in_tick, ?s)) = in_tick
       \<and> ephemeral_ring ?s2 = drop (length ([] @ [0..<200]) - MAX_EPHEMERAL) ([] @ [0..<200])
       \<and> objects (world ?s2) = [] @ drop (length ([] @ [0..<200]) - MAX_EPHEMERAL) ([] @ [0..<200])
       \<and> destroyed (world ?s2) =
           destroyed (world ?s) @ map (body_of ?s) (take (length ([] @ [0..<200]) - MAX_EPHEMERAL) ([] @ [0..<200]))"
      by (rule register_many_update)
         (simp_all add: in_tick_def createExecutor_def fresh_world_def MAX_EPHEMERAL_def)
    then show ?thesis
      by (simp add: MAX_EPHEMERAL_def createExecutor_def fresh_world_def)
  qed
  have t1: "take 50 [0..<250] = [0..<50]" by (simp add: take_upt)
  have t2: "drop 50 [0..<250] = [50..<250]" by (simp add: drop_upt)
  have t3: "tl [0..<200] @ [200] = [1..<201]"
    by (simp add: tl_upt upt_Suc_append[symmetric] del: upt_Suc)
  have t4: "hd [0..<200] = 0" by (simp add: hd_upt)
  from ring_buffer_bound[where s="?s" and c=in_tick and objs="[0..<250]" and base="[]"
      and w=fresh_world and obj=0 and nf="\<lambda>code. Inl []" and code="Null" and x=0 and y=0 and fs="[]"]
    h1
  have a: "ephemeral_ring (snd (fold wrappedRegister [0..<250] (in_tick, ?s))) = drop 50 [0..<250]
    \<and> objects (world (snd (fold wrappedRegister [0..<250] (in_tick, ?s)))) = [] @ drop 50 [0..<250]
    \<and> destroyed (world (snd (fold wrappedRegister [0..<250] (in_tick, ?s)))) =
         destroyed (world ?s) @ map (body_of ?s) (take 50 [0..<250])"
    by blast
  from ring_buffer_bound[where s="?s2" and c=in_tick and objs="[]" and base="[]"
      and w=fresh_world and obj=200 and nf="\<lambda>code. Inl []" and code="Null" and x=0 and y=0 and fs="[]"]
    h2
  have b: "ephemeral_ring (snd (wrappedRegister 200 (in_tick, ?s2))) = tl (ephemeral_ring ?s2) @ [200]
    \<and> destroyed (world (snd (wrappedRegister 200 (in_tick, ?s2)))) =
         destroyed (world ?s2) @ [body_of ?s2 (hd (ephemeral_ring ?s2))]"
    by blast
  have a': "destroyed (world ?s) @ map (body_of ?s) (take 50 [0..<250]) = [0..<50]"
    unfolding t1 body_of_fresh by (simp add: createExecutor_def fresh_world_def)
  have b0: "body_of ?s2 0 = 0"
    by (simp add: body_of_fresh)
  have b': "destroyed (world ?s2) @ [body_of ?s2 (hd (ephemeral_ring ?s2))] = [0]"
    unfolding fresh_200 t4 d2 b0 by (simp only: append_Nil)
  have b'': "tl (ephemeral_ring ?s2) @ [200] = [1..<201]"
    unfolding fresh_200 by (rule t3)
  have a2: "ephemeral_ring (snd (fold wrappedRegister [0..<250] (in_tick, ?s))) = [50..<250]
    \<and> objects (world (snd (fold wrappedRegister [0..<250] (in_tick, ?s)))) = [50..<250]
    \<and> destroyed (world (snd (fold wrappedRegister [0..<250] (in_tick, ?s)))) = [0..<50]"
    using a unfolding a' t2 by (simp only: append_Nil)
  have b2: "ephemeral_ring (snd (wrappedRegister 200 (in_tick, ?s2))) = [1..<201]
    \<and> destroyed (world (snd (wrappedRegister 200 (in_tick, ?s2)))) = [0]"
    using b unfolding b' b'' .
  show ?thesis
    using a2 b2 by blast
qed



lemma register_in_setup:
  assumes "\<not> inUpdate c"
  shows "ephemeral (heap (world (snd (wrappedRegister obj (c, s)))) obj) = ephemeral (heap (world s) obj)
   \<and> spawned (heap (world (snd (wrappedRegister obj (c, s)))) obj)
   \<and> objects (world (snd (wrappedRegister obj (c, s)))) = objects (world s) @ [obj]
   \<and> bodies (world (snd (wrappedRegister obj (c, s)))) = bodies (world s)
   \<and> destroyed (world (snd (wrappedRegister obj (c, s)))) = destroyed (world s)
   \<and> ephemeral_ring (snd (wrappedRegister obj (c, s))) = ephemeral_ring s
   \<and> rootBodies (fst (wrappedRegister obj (c, s))) = rootBodies c @ [body_of s obj]"
  using assms
  by (simp add: wrappedRegister_setup registerObject_def set_spawned_def body_of_def)

lemma register_in_update:
  assumes "inUpdate c"
  shows "ephemeral (heap (world (snd (wrappedRegister obj (c, s)))) obj)
   \<and> spawned (heap (world (snd (wrappedRegister obj (c, s)))) obj)
   \<and> isEphemeral (bodies (world (snd (wrappedRegister obj (c, s)))) (body_of s obj))
   \<and> gravityScale (bodies (world (snd (wrappedRegister obj (c, s)))) (body_of s obj)) = 0
   \<and> fixtureList (bodies (world (snd (wrappedRegister obj (c, s)))) (body_of s obj)) =
        map (\<lambda>f. f\<lparr>density := 0\<rparr>) (fixtureList (bodies (world s) (body_of s obj)))
   \<and> ephemeral_ring (snd (wrappedRegister obj (c, s))) \<noteq> []
   \<and> last (ephemeral_ring (snd (wrappedRegister obj (c, s)))) = obj
   \<and> rootBodies (fst (wrappedRegister obj (c, s))) = rootBodies c"
proof (cases "length (ephemeral_ring s) < MAX_EPHEMERAL")
  case True
  then show ?thesis
    using assms
    by (simp add: wrappedRegister_update_room registerObject_def set_spawned_def set_ephemeral_def
        make_weightless_def body_of_def)
next
  case False
  then obtain old rest where r: "ephemeral_ring s = old # rest"
    by (cases "ephemeral_ring s") (auto simp: MAX_EPHEMERAL_def)
  show ?thesis
    using assms False r
    by (simp add: wrappedRegister_update_full registerObject_def set_spawned_def set_ephemeral_def
        make_weightless_def unregisterObject_def destroyBody_def body_of_def)
qed

text \<open>
  C4, as stated: every object passed to the register capability during setup has
  \<open>ephemeral = false\<close>. The setup branch never writes the flag, so an object that
  arrives carrying \<open>ephemeral = true\<close> keeps it.
\<close>

theorem setup_tagging_counterexample:
  "ephemeral (heap (world (snd (wrappedRegister 7 (in_setup, createExecutor tagged_world)))) 7)"
  by (simp add: wrappedRegister_setup in_setup_def createExecutor_def tagged_world_def fresh_world_def
      registerObject_def set_spawned_def)

text \<open>
  C4, amended: a registration outside an update (the setup call) leaves the object's
  \<open>ephemeral\<close> flag as it was passed (false for an object that was never tagged), sets
  \<open>spawned\<close>, appends the object to the registry whatever its length, changes no body,
  no \<^verbatim>\<open>destroyBody\<close> log and not the ring buffer, and records the body as a root body.
  A registration during an update sets \<open>ephemeral\<close> and \<open>spawned\<close>, tags the body,
  zeroes its gravity scale and the density of every fixture, and leaves the object as the
  newest entry of the ring buffer; the root bodies are unchanged.
\<close>

theorem setup_vs_update_tagging:
  "(\<not> inUpdate c \<longrightarrow>
     ephemeral (heap (world (snd (wrappedRegister obj (c, s)))) obj) = ephemeral (heap (world s) obj)
   \<and> spawned (heap (world (snd (wrappedRegister obj (c, s)))) obj)
   \<and> objects (world (snd (wrappedRegister obj (c, s)))) = objects (world s) @ [obj]
   \<and> bodies (world (snd (wrappedRegister obj (c, s)))) = bodies (world s)
   \<and> destroyed (world (snd (wrappedRegister obj (c, s)))) = destroyed (world s)
   \<and> ephemeral_ring (snd (wrappedRegister obj (c, s))) = ephemeral_ring s
   \<and> rootBodies (fst (wrappedRegister obj (c, s))) = rootBodies c @ [body_of s obj])
 \<and> (inUpdate c \<longrightarrow>
     ephemeral (heap (world (snd (wrappedRegister obj (c, s)))) obj)
   \<and> spawned (heap (world (snd (wrappedRegister obj (c, s)))) obj)
   \<and> isEphemeral (bodies (world (snd (wrappedRegister obj (c, s)))) (body_of s obj))
   \<and> gravityScale (bodies (world (snd (wrappedRegister obj (c, s)))) (body_of s obj)) = 0
   \<and> fixtureList (bodies (world (snd (wrappedRegister obj (c, s)))) (body_of s obj)) =
        map (\<lambda>f. f\<lparr>density := 0\<rparr>) (fixtureList (bodies (world s) (body_of s obj)))
   \<and> ephemeral_ring (snd (wrappedRegister obj (c, s))) \<noteq> []
   \<and> last (ephemeral_ring (snd (wrappedRegister obj (c, s)))) = obj
   \<and> rootBodies (fst (wrappedRegister obj (c, s))) = rootBodies c)"
  using register_in_setup[of c obj s] register_in_update[of c obj s] by blast

theorem setup_vs_update_tagging_witness:
  "\<not> ephemeral (heap (world (snd (wrappedRegister 3 (in_setup, createExecutor fresh_world)))) 3)
 \<and> objects (world (snd (wrappedRegister 3 (in_setup, createExecutor fresh_world)))) = [3]
 \<and> bodies (world (snd (wrappedRegister 3 (in_setup, createExecutor fresh_world)))) = bodies fresh_world
 \<and> rootBodies (fst (wrappedRegister 3 (in_setup, createExecutor fresh_world))) = [3]
 \<and> ephemeral (heap (world (snd (wrappedRegister 3 (in_tick, createExecutor fresh_world)))) 3)
 \<and> gravityScale (bodies (world (snd (wrappedRegister 3 (in_tick, createExecutor fresh_world)))) 3) = 0
 \<and> fixtureList (bodies (world (snd (wrappedRegister 3 (in_tick, createExecutor fresh_world)))) 3)
      = [\<lparr>density = 0\<rparr>]
 \<and> last (ephemeral_ring (snd (wrappedRegister 3 (in_tick, createExecutor fresh_world)))) = 3"
  using setup_vs_update_tagging[of in_setup 3 "createExecutor fresh_world"]
        setup_vs_update_tagging[of in_tick 3 "createExecutor fresh_world"]
  by (simp add: in_setup_def in_tick_def body_of_fresh)
     (simp add: createExecutor_def fresh_world_def plain_object_def plain_body_def)

end
